theory Spec2Isabelle
  imports Main "HOL-Library.Word" "HOL-Library.Sublist"
begin

unbundle bit_operations_syntax

section \<open>Errors and allocation\<close>

text \<open>
  Every failure of \<^verbatim>\<open>libxl_capabilities.c\<close> is a \<^verbatim>\<open>return -1\<close> (or a jump to the
  cleanup label with \<^verbatim>\<open>ret = -1\<close>); the source reports all of them as
  \<^verbatim>\<open>VIR_ERR_INTERNAL_ERROR\<close> with a message. The model keeps one constructor per
  message, named after the error kinds of the specification:
  \<^item> \<open>HostQueryError\<close>: "Failed to get node physical info from libxenlight";
  \<^item> \<open>TopologyQueryError\<close>: "libxl_get_numainfo failed", "libxl_get_cpu_topology failed";
  \<^item> \<open>VersionInfoError\<close>: "Failed to get version info from libxenlight";
  \<^item> \<open>CapabilitiesMissingError\<close>: "Failed to get capabilities from libxenlight";
  \<^item> \<open>RegexCompileError\<close>: "Failed to compile regex";
  \<^item> \<open>AllocationError\<close>: a builder call or an allocation returned failure;
  \<^item> \<open>OutOfBounds\<close>: the C code would index an array outside its bounds
    (undefined behaviour in C; a result of its own in the model).
\<close>

datatype error =
    HostQueryError
  | TopologyQueryError
  | VersionInfoError
  | CapabilitiesMissingError
  | RegexCompileError
  | AllocationError
  | OutOfBounds

text \<open>
  Allocation can fail at any call that allocates. Since every such failure aborts the
  running step, only the position of the first failing call matters: \<open>FailAfter n\<close>
  lets \<open>n\<close> calls succeed and fails the next one, \<open>Unlimited\<close> never fails.
\<close>

datatype mem = Unlimited | FailAfter nat

fun virAlloc :: "mem \<Rightarrow> mem option" where
  "virAlloc Unlimited = Some Unlimited"
| "virAlloc (FailAfter 0) = None"
| "virAlloc (FailAfter (Suc n)) = Some (FailAfter n)"

section \<open>The capability object\<close>

datatype virArch =
    VIR_ARCH_NONE
  | VIR_ARCH_I686
  | VIR_ARCH_X86_64
  | VIR_ARCH_ITANIUM
  | VIR_ARCH_PPC64
  | VIR_ARCH_ARMV7L
  | VIR_ARCH_AARCH64

datatype virDomainOSType = VIR_DOMAIN_OSTYPE_HVM | VIR_DOMAIN_OSTYPE_XEN

datatype virDomainVirtType = VIR_DOMAIN_VIRT_XEN

record virCapsGuestFeature =
  name :: string
  defaultOn :: bool
  toggle :: bool

record virCapsGuest =
  ostype :: virDomainOSType
  guest_arch_of :: virArch
  emulator :: string
  loader :: "string option"
  machines :: "string list"
  domains :: "virDomainVirtType list"
  features :: "virCapsGuestFeature list"

text \<open>A bitmap of \<open>bm_size\<close> bits; \<open>bm_bits\<close> is the set of indices whose bit is set.\<close>

record virBitmap =
  bm_size :: nat
  bm_bits :: "nat set"

record virCapsHostNUMACellCPU =
  cpu_id :: nat
  socket_id :: "32 word"
  core_id :: "32 word"
  siblings :: virBitmap

record virCapsHostNUMACell =
  num :: nat
  cell_mem :: "64 word"
  cell_cpus :: "virCapsHostNUMACellCPU list"

record virCaps =
  host_arch :: virArch
  offlineMigrate :: bool
  liveMigrate :: bool
  host_features :: "string list"
  netprefix :: "string option"
  numa_cells :: "virCapsHostNUMACell list"
  guests :: "virCapsGuest list"

text \<open>
  The state a build step works on: the capability object behind the \<^verbatim>\<open>caps\<close>
  pointer and the allocator. A step returns \<open>Inr ()\<close> for \<^verbatim>\<open>0\<close> and \<open>Inl e\<close> for
  \<^verbatim>\<open>-1\<close>, together with the state it leaves behind (the object is mutated in
  place, so a failing step leaves its partial work in it).
\<close>

record st =
  caps :: virCaps
  heap_mem :: mem

type_synonym step = "st \<Rightarrow> (error + unit) \<times> st"

definition ok :: step where
  "ok s = (Inr (), s)"

definition seq :: "step \<Rightarrow> step \<Rightarrow> step" where
  "seq f g s = (case f s of (Inl e, s') \<Rightarrow> (Inl e, s') | (Inr _, s') \<Rightarrow> g s')"

definition when_then :: "bool \<Rightarrow> step \<Rightarrow> step" where
  "when_then c f = (if c then f else ok)"

text \<open>
  Modelled from the spec: the capability-object builder API (\<^verbatim>\<open>capabilities.c\<close> is
  not among the sources). Each call "may fail with an allocation/validation error";
  here a call fails exactly when the allocator does, and otherwise applies its update.
\<close>

definition api_call :: "(virCaps \<Rightarrow> virCaps) \<Rightarrow> step" where
  "api_call upd s =
     (case virAlloc (heap_mem s) of
        None \<Rightarrow> (Inl AllocationError, s)
      | Some m \<Rightarrow> (Inr (), s\<lparr>caps := upd (caps s), heap_mem := m\<rparr>))"

definition virCapabilitiesNew :: "virArch \<Rightarrow> bool \<Rightarrow> bool \<Rightarrow> virCaps" where
  "virCapabilitiesNew a offline live =
     \<lparr>host_arch = a, offlineMigrate = offline, liveMigrate = live,
      host_features = [], netprefix = None, numa_cells = [], guests = []\<rparr>"

definition virCapabilitiesAddHostFeature :: "string \<Rightarrow> step" where
  "virCapabilitiesAddHostFeature f =
     api_call (\<lambda>c. c\<lparr>host_features := host_features c @ [f]\<rparr>)"

definition virCapabilitiesSetNetPrefix :: "string \<Rightarrow> step" where
  "virCapabilitiesSetNetPrefix p = api_call (\<lambda>c. c\<lparr>netprefix := Some p\<rparr>)"

definition virCapabilitiesAllocMachines :: "string list \<Rightarrow> step" where
  "virCapabilitiesAllocMachines ms = api_call (\<lambda>c. c)"

definition virCapabilitiesAddGuest ::
  "virDomainOSType \<Rightarrow> virArch \<Rightarrow> string \<Rightarrow> string option \<Rightarrow> string list \<Rightarrow> step" where
  "virCapabilitiesAddGuest ot a emu ld ms =
     api_call (\<lambda>c. c\<lparr>guests := guests c @
       [\<lparr>ostype = ot, guest_arch_of = a, emulator = emu, loader = ld,
         machines = ms, domains = [], features = []\<rparr>]\<rparr>)"

text \<open>
  The \<^verbatim>\<open>guest\<close> pointer the source holds is the entry \<^verbatim>\<open>virCapabilitiesAddGuest\<close>
  has just appended: the last one of the object.
\<close>

definition upd_last :: "('a \<Rightarrow> 'a) \<Rightarrow> 'a list \<Rightarrow> 'a list" where
  "upd_last f xs = (case rev xs of [] \<Rightarrow> [] | x # r \<Rightarrow> rev r @ [f x])"

definition virCapabilitiesAddGuestDomain :: "virDomainVirtType \<Rightarrow> step" where
  "virCapabilitiesAddGuestDomain vt =
     api_call (\<lambda>c. c\<lparr>guests := upd_last (\<lambda>g. g\<lparr>domains := domains g @ [vt]\<rparr>) (guests c)\<rparr>)"

definition virCapabilitiesAddGuestFeature :: "string \<Rightarrow> bool \<Rightarrow> bool \<Rightarrow> step" where
  "virCapabilitiesAddGuestFeature n d t =
     api_call (\<lambda>c. c\<lparr>guests := upd_last
       (\<lambda>g. g\<lparr>features := features g @ [\<lparr>name = n, defaultOn = d, toggle = t\<rparr>]\<rparr>) (guests c)\<rparr>)"

section \<open>What the toolstack and the build configuration answer\<close>

text \<open>\<^verbatim>\<open>uint32_t hw_cap[8]\<close>, as a function of the index.\<close>

record libxl_physinfo =
  hw_cap :: "nat \<Rightarrow> 32 word"

record libxl_cputopology =
  core :: "32 word"
  socket :: "32 word"
  node :: "32 word"

record libxl_numainfo =
  size' :: "64 word"

record libxl_version_info =
  capabilities :: "string option"

text \<open>
  One field per query of the toolstack (\<open>None\<close> when the query fails or returns
  \<^verbatim>\<open>NULL\<close>; the length of a returned list is the count the query reports), then
  what the build configuration and the host define outside the sources: the
  macros \<^verbatim>\<open>LIBXL_EXECBIN_DIR\<close>, \<^verbatim>\<open>LIBXL_FIRMWARE_DIR\<close>,
  \<^verbatim>\<open>LIBXL_GENERATED_PREFIX_XEN\<close> and \<^verbatim>\<open>LIBXL_HAVE_NO_SUSPEND_RESUME\<close>, and the
  result of \<^verbatim>\<open>virArchFromHost()\<close>.
\<close>

record env =
  physinfo :: "libxl_physinfo option"
  numainfo :: "libxl_numainfo list option"
  cputopology :: "libxl_cputopology list option"
  version_info :: "libxl_version_info option"
  LIBXL_EXECBIN_DIR :: string
  LIBXL_FIRMWARE_DIR :: string
  LIBXL_GENERATED_PREFIX_XEN :: string
  LIBXL_HAVE_NO_SUSPEND_RESUME :: bool
  virArchFromHost :: virArch

text \<open>Both sentinels are \<^verbatim>\<open>(~(uint32_t)0)\<close> in the toolstack's header.\<close>

definition LIBXL_CPUTOPOLOGY_INVALID_ENTRY :: "32 word" where
  "LIBXL_CPUTOPOLOGY_INVALID_ENTRY = NOT 0"

definition LIBXL_NUMAINFO_INVALID_ENTRY :: "32 word" where
  "LIBXL_NUMAINFO_INVALID_ENTRY = NOT 0"

section \<open>Host Feature Probe: \<^verbatim>\<open>libxlCapsInitHost\<close>\<close>

definition LIBXL_X86_FEATURE_PAE_MASK :: "32 word" where
  "LIBXL_X86_FEATURE_PAE_MASK = 0x40"

definition libxlCapsInitHost :: "env \<Rightarrow> step" where
  "libxlCapsInitHost e s =
     (case physinfo e of
        None \<Rightarrow> (Inl HostQueryError, s)
      | Some phy_info \<Rightarrow>
          let host_pae = hw_cap phy_info 0 AND LIBXL_X86_FEATURE_PAE_MASK in
          seq (when_then (host_pae \<noteq> 0) (virCapabilitiesAddHostFeature ''pae''))
              (virCapabilitiesSetNetPrefix (LIBXL_GENERATED_PREFIX_XEN e)) s)"

section \<open>NUMA Topology Builder: \<^verbatim>\<open>libxlCapsInitNuma\<close>\<close>

text \<open>
  Modelled from the spec: the bitmap calls of \<^verbatim>\<open>virbitmap.c\<close>, which is not among
  the sources. \<^verbatim>\<open>virBitmapSetBit\<close> refuses an index outside the bitmap; the source
  ignores its result.
\<close>

definition virBitmapNew :: "nat \<Rightarrow> virBitmap" where
  "virBitmapNew n = \<lparr>bm_size = n, bm_bits = {}\<rparr>"

definition virBitmapSetBit :: "virBitmap \<Rightarrow> nat \<Rightarrow> virBitmap" where
  "virBitmapSetBit b i = (if i < bm_size b then b\<lparr>bm_bits := insert i (bm_bits b)\<rparr> else b)"

text \<open>
  The scratch arrays: \<open>cpus ! n\<close> is the list \<^verbatim>\<open>cpus[n]\<close> of node \<open>n\<close>, and
  \<^verbatim>\<open>nr_cpus_node[n]\<close> is its length (the source grows the list by one entry each
  time it increments the counter). \<^verbatim>\<open>int node = cpu_topo[i].node\<close> reads the 32-bit
  field as a signed integer; an index outside \<^verbatim>\<open>0 .. nr_nodes - 1\<close> is out of
  bounds for both arrays.

  First loop, over the CPUs \<open>(i, cpu_topo[i])\<close> that remain: two allocations for
  each CPU with a valid core (the list entry, then the siblings bitmap).
\<close>

fun collect_cpus ::
  "nat \<Rightarrow> (nat \<times> libxl_cputopology) list \<Rightarrow> virCapsHostNUMACellCPU list list \<Rightarrow> mem \<Rightarrow>
   error + (virCapsHostNUMACellCPU list list \<times> mem)" where
  "collect_cpus nr_cpus [] cpus m = Inr (cpus, m)"
| "collect_cpus nr_cpus ((i, t) # rest) cpus m =
     (if core t = LIBXL_CPUTOPOLOGY_INVALID_ENTRY then collect_cpus nr_cpus rest cpus m
      else if sint (node t) < 0 \<or> sint (node t) \<ge> int (length cpus) then Inl OutOfBounds
      else
        (case virAlloc m of
           None \<Rightarrow> Inl AllocationError
         | Some m1 \<Rightarrow>
             (case virAlloc m1 of
                None \<Rightarrow> Inl AllocationError
              | Some m2 \<Rightarrow>
                  let n = nat (sint (node t)) in
                  collect_cpus nr_cpus rest
                    (cpus[n := cpus ! n @
                       [\<lparr>cpu_id = i, socket_id = socket t, core_id = core t,
                         siblings = virBitmapNew nr_cpus\<rparr>]]) m2)))"

text \<open>Second loop: CPU \<open>i\<close> marks itself in every entry of its node with its socket and core.\<close>

definition mark_sibling :: "nat \<Rightarrow> libxl_cputopology \<Rightarrow> virCapsHostNUMACellCPU \<Rightarrow> virCapsHostNUMACellCPU" where
  "mark_sibling i t c =
     (if socket_id c = socket t \<and> core_id c = core t
      then c\<lparr>siblings := virBitmapSetBit (siblings c) i\<rparr> else c)"

fun populate_siblings ::
  "(nat \<times> libxl_cputopology) list \<Rightarrow> virCapsHostNUMACellCPU list list \<Rightarrow>
   virCapsHostNUMACellCPU list list" where
  "populate_siblings [] cpus = cpus"
| "populate_siblings ((i, t) # rest) cpus =
     (if core t = LIBXL_CPUTOPOLOGY_INVALID_ENTRY then populate_siblings rest cpus
      else
        let n = nat (sint (node t)) in
        populate_siblings rest (cpus[n := map (mark_sibling i t) (cpus ! n)]))"

text \<open>
  Modelled from the spec: \<^verbatim>\<open>virCapabilitiesAddHostNUMACell\<close> appends a cell and takes
  over its CPU list; \<^verbatim>\<open>virCapabilitiesFreeNUMAInfo\<close> drops every cell of the object.
\<close>

definition virCapabilitiesAddHostNUMACell ::
  "nat \<Rightarrow> 64 word \<Rightarrow> virCapsHostNUMACellCPU list \<Rightarrow> step" where
  "virCapabilitiesAddHostNUMACell n m cs =
     api_call (\<lambda>c. c\<lparr>numa_cells := numa_cells c @ [\<lparr>num = n, cell_mem = m, cell_cpus = cs\<rparr>]\<rparr>)"

definition virCapabilitiesFreeNUMAInfo :: "virCaps \<Rightarrow> virCaps" where
  "virCapabilitiesFreeNUMAInfo c = c\<lparr>numa_cells := []\<rparr>"

text \<open>Third loop, over the nodes \<open>(i, numa_info[i])\<close> that remain.\<close>

fun add_cells :: "(nat \<times> libxl_numainfo) list \<Rightarrow> virCapsHostNUMACellCPU list list \<Rightarrow> step" where
  "add_cells [] cpus = ok"
| "add_cells ((i, ni) # rest) cpus =
     (if size' ni = ucast LIBXL_NUMAINFO_INVALID_ENTRY then add_cells rest cpus
      else seq (virCapabilitiesAddHostNUMACell i (size' ni div 1024) (cpus ! i))
               (add_cells rest cpus))"

text \<open>The \<^verbatim>\<open>cleanup\<close> label with \<^verbatim>\<open>ret != 0\<close>.\<close>

definition numa_cleanup :: "error \<Rightarrow> st \<Rightarrow> (error + unit) \<times> st" where
  "numa_cleanup err s = (Inl err, s\<lparr>caps := virCapabilitiesFreeNUMAInfo (caps s)\<rparr>)"

definition libxlCapsInitNuma :: "env \<Rightarrow> step" where
  "libxlCapsInitNuma e s =
     (case numainfo e of
        None \<Rightarrow> numa_cleanup TopologyQueryError s
      | Some numa_info \<Rightarrow>
          if length numa_info = 0 then numa_cleanup TopologyQueryError s
          else
            (case cputopology e of
               None \<Rightarrow> numa_cleanup TopologyQueryError s
             | Some cpu_topo \<Rightarrow>
                 if length cpu_topo = 0 then numa_cleanup TopologyQueryError s
                 else
                   let nr_nodes = length numa_info; nr_cpus = length cpu_topo in
                   (case virAlloc (heap_mem s) of
                      None \<Rightarrow> numa_cleanup AllocationError s
                    | Some m1 \<Rightarrow>
                        (case virAlloc m1 of
                           None \<Rightarrow> numa_cleanup AllocationError (s\<lparr>heap_mem := m1\<rparr>)
                         | Some m2 \<Rightarrow>
                             (case collect_cpus nr_cpus (zip [0..<nr_cpus] cpu_topo)
                                     (replicate nr_nodes []) m2 of
                                Inl err \<Rightarrow> numa_cleanup err (s\<lparr>heap_mem := m2\<rparr>)
                              | Inr (cpus, m3) \<Rightarrow>
                                  let cpus' = populate_siblings (zip [0..<nr_cpus] cpu_topo) cpus in
                                  (case add_cells (zip [0..<nr_nodes] numa_info) cpus'
                                          (s\<lparr>heap_mem := m3\<rparr>) of
                                     (Inl err, s') \<Rightarrow> numa_cleanup err s'
                                   | (Inr u, s') \<Rightarrow> (Inr u, s')))))))"


section \<open>Guest Architecture Parser: \<^verbatim>\<open>libxlCapsInitGuests\<close>\<close>

record guest_arch =
  arch :: virArch
  bits :: int
  hvm :: bool
  pae :: bool
  nonpae :: bool
  ia64_be :: bool

text \<open>\<^verbatim>\<open>memset(guest_archs, 0, sizeof(guest_archs))\<close>: every entry starts zeroed.\<close>

definition zero_guest_arch :: guest_arch where
  "zero_guest_arch =
     \<lparr>arch = VIR_ARCH_NONE, bits = 0, hvm = False, pae = False, nonpae = False, ia64_be = False\<rparr>"

text \<open>\<^verbatim>\<open>sizeof(guest_archs) / sizeof(guest_archs[0])\<close> for \<^verbatim>\<open>struct guest_arch guest_archs[32]\<close>.\<close>

definition ARRAY_CARDINALITY_guest_archs :: nat where
  "ARRAY_CARDINALITY_guest_archs = 32"

text \<open>\<^verbatim>\<open>STRPREFIX(a, b)\<close> is \<^verbatim>\<open>strncmp(a, b, strlen(b)) == 0\<close>.\<close>

definition STRPREFIX :: "string \<Rightarrow> string \<Rightarrow> bool" where
  "STRPREFIX a b = (take (length b) a = b)"

subsection \<open>The regular expression\<close>

text \<open>
  \<^verbatim>\<open>XEN_CAP_REGEX\<close> is
  \<^verbatim>\<open>(xen|hvm)-[[:digit:]]+\.[[:digit:]]+-(aarch64|armv7l|x86_32|x86_64|ia64|powerpc64)(p|be)?\<close>.
  \<^verbatim>\<open>regexec\<close> is the C library's; the model is the POSIX matching rule for this one
  pattern. A match starting at a given position is unique up to the optional last
  group: each run of digits must be followed by a character that is not a digit, no
  architecture name is a prefix of another, and the longest match takes the suffix when
  one is there. \<open>match_here s\<close> matches at the start of \<open>s\<close> and returns the offsets
  at which groups 2 and 3 start (\<open>None\<close> for a group 3 that did not take part, the
  \<^verbatim>\<open>rm_so = -1\<close> of the source).
\<close>

definition is_digit :: "char \<Rightarrow> bool" where
  "is_digit c = (c \<in> set ''0123456789'')"

definition regex_archs :: "string list" where
  "regex_archs = [''aarch64'', ''armv7l'', ''x86_32'', ''x86_64'', ''ia64'', ''powerpc64'']"

definition match_here :: "string \<Rightarrow> (nat \<times> nat option) option" where
  "match_here s =
     (if \<not> (STRPREFIX s ''xen'' \<or> STRPREFIX s ''hvm'') then None
      else if \<not> STRPREFIX (drop 3 s) ''-'' then None
      else let n1 = length (takeWhile is_digit (drop 4 s)) in
      if n1 = 0 then None
      else if \<not> STRPREFIX (drop (4 + n1) s) ''.'' then None
      else let n2 = length (takeWhile is_digit (drop (5 + n1) s)) in
      if n2 = 0 then None
      else if \<not> STRPREFIX (drop (5 + n1 + n2) s) ''-'' then None
      else let o2 = 6 + n1 + n2 in
      (case filter (STRPREFIX (drop o2 s)) regex_archs of
         [] \<Rightarrow> None
       | a # _ \<Rightarrow>
           let o3 = o2 + length a in
           Some (o2, if STRPREFIX (drop o3 s) ''p'' \<or> STRPREFIX (drop o3 s) ''be''
                     then Some o3 else None)))"

text \<open>
  The pattern is not anchored: \<^verbatim>\<open>regexec\<close> reports the leftmost match. The result
  is \<^verbatim>\<open>subs[1].rm_so\<close>, \<^verbatim>\<open>subs[2].rm_so\<close> and \<^verbatim>\<open>subs[3].rm_so\<close>; \<open>None\<close> is
  \<^verbatim>\<open>REG_NOMATCH\<close>.
\<close>

fun regexec_from :: "nat \<Rightarrow> string \<Rightarrow> (nat \<times> nat \<times> nat option) option" where
  "regexec_from k [] = None"
| "regexec_from k (c # cs) =
     (case match_here (c # cs) of
        Some (o2, o3) \<Rightarrow> Some (k, k + o2, map_option (\<lambda>j. k + j) o3)
      | None \<Rightarrow> regexec_from (Suc k) cs)"

definition regexec :: "string \<Rightarrow> (nat \<times> nat \<times> nat option) option" where
  "regexec token = regexec_from 0 token"

text \<open>\<^verbatim>\<open>regcomp\<close> of the constant, well-formed pattern: it returns 0.\<close>

definition regcomp_XEN_CAP_REGEX :: int where
  "regcomp_XEN_CAP_REGEX = 0"

subsection \<open>The token loop\<close>

text \<open>
  \<^verbatim>\<open>strtok_r(str, " ", &saveptr)\<close>, called until it returns \<^verbatim>\<open>NULL\<close>, yields the
  maximal runs of characters other than a space, from left to right. \<open>cur\<close> is the
  run being read, reversed.
\<close>

fun strtok_r_from :: "string \<Rightarrow> string \<Rightarrow> string list" where
  "strtok_r_from cur [] = (if cur = [] then [] else [rev cur])"
| "strtok_r_from cur (c # cs) =
     (if c = CHR '' ''
      then (if cur = [] then strtok_r_from [] cs else rev cur # strtok_r_from [] cs)
      else strtok_r_from (c # cur) cs)"

definition strtok_r_all :: "string \<Rightarrow> string list" where
  "strtok_r_all str = strtok_r_from [] str"

text \<open>
  The part of the loop body that reads the token: \<open>None\<close> when the body ends without
  touching the array (no match, or the final \<^verbatim>\<open>else continue\<close>), otherwise the
  locals \<^verbatim>\<open>arch\<close>, \<^verbatim>\<open>hvm\<close>, \<^verbatim>\<open>pae\<close>, \<^verbatim>\<open>nonpae\<close>, \<^verbatim>\<open>ia64_be\<close>.
\<close>

definition decode_token :: "string \<Rightarrow> (virArch \<times> bool \<times> bool \<times> bool \<times> bool) option" where
  "decode_token token =
     (case regexec token of
        None \<Rightarrow> None
      | Some (so1, so2, so3) \<Rightarrow>
          let h = STRPREFIX (drop so1 token) ''hvm'' in
          if STRPREFIX (drop so2 token) ''x86_32'' then
            (if (case so3 of None \<Rightarrow> False | Some j \<Rightarrow> STRPREFIX (drop j token) ''p'')
             then Some (VIR_ARCH_I686, h, True, False, False)
             else Some (VIR_ARCH_I686, h, False, True, False))
          else if STRPREFIX (drop so2 token) ''x86_64'' then
            Some (VIR_ARCH_X86_64, h, False, False, False)
          else if STRPREFIX (drop so2 token) ''ia64'' then
            (if (case so3 of None \<Rightarrow> False | Some j \<Rightarrow> STRPREFIX (drop j token) ''be'')
             then Some (VIR_ARCH_ITANIUM, h, False, False, True)
             else Some (VIR_ARCH_ITANIUM, h, False, False, False))
          else if STRPREFIX (drop so2 token) ''powerpc64'' then
            Some (VIR_ARCH_PPC64, h, False, False, False)
          else if STRPREFIX (drop so2 token) ''armv7l'' then
            Some (VIR_ARCH_ARMV7L, h, False, False, False)
          else if STRPREFIX (drop so2 token) ''aarch64'' then
            Some (VIR_ARCH_AARCH64, h, False, False, False)
          else None)"

text \<open>
  \<^verbatim>\<open>for (i = 0; i < nr_guest_archs; i++) if (match) break;\<close> started at \<open>i\<close>: the
  value of \<^verbatim>\<open>i\<close> after the loop.
\<close>

function search_tuple :: "guest_arch list \<Rightarrow> nat \<Rightarrow> virArch \<Rightarrow> bool \<Rightarrow> nat \<Rightarrow> nat" where
  "search_tuple ga nr a h i =
     (if i < nr
      then (if arch (ga ! i) = a \<and> hvm (ga ! i) = h then i
            else search_tuple ga nr a h (Suc i))
      else i)"
  by pat_completeness auto
termination
  by (relation "measure (\<lambda>(ga, nr, a, h, i). nr - i)") auto

declare search_tuple.simps [simp del]

text \<open>
  The state of the loop is the array \<^verbatim>\<open>guest_archs\<close> and \<^verbatim>\<open>nr_guest_archs\<close>.
  The body ends without a write when the token does not decode and at the
  \<^verbatim>\<open>continue\<close> of "Too many arch flavours"; otherwise it writes entry \<^verbatim>\<open>i\<close>.
\<close>

definition loop_body :: "guest_arch list \<times> nat \<Rightarrow> string \<Rightarrow> guest_arch list \<times> nat" where
  "loop_body s token =
     (case decode_token token of
        None \<Rightarrow> s
      | Some (a, h, p, np, be) \<Rightarrow>
          let ga = fst s; nr = snd s;
              i = search_tuple ga nr a h 0 in
          if i \<ge> ARRAY_CARDINALITY_guest_archs then s
          else
            let nr' = (if i = nr then Suc nr else nr);
                g0 = (ga ! i)\<lparr>arch := a, hvm := h\<rparr>;
                g1 = (if p then g0\<lparr>pae := p\<rparr> else g0);
                g2 = (if np then g1\<lparr>nonpae := np\<rparr> else g1);
                g3 = (if be then g2\<lparr>ia64_be := be\<rparr> else g2)
            in (ga[i := g3], nr'))"

text \<open>
  The loop over the tokens. Its condition tests \<^verbatim>\<open>nr_guest_archs\<close> against the
  size of the array before it asks for the next token.
\<close>

fun token_loop :: "guest_arch list \<times> nat \<Rightarrow> string list \<Rightarrow> guest_arch list \<times> nat" where
  "token_loop s [] = s"
| "token_loop s (token # rest) =
     (if snd s < ARRAY_CARDINALITY_guest_archs
      then token_loop (loop_body s token) rest
      else s)"

definition parse_capabilities :: "string \<Rightarrow> guest_arch list \<times> nat" where
  "parse_capabilities str =
     token_loop (replicate ARRAY_CARDINALITY_guest_archs zero_guest_arch, 0) (strtok_r_all str)"

subsection \<open>Emission\<close>

definition emit_guest :: "env \<Rightarrow> guest_arch \<Rightarrow> step" where
  "emit_guest e g =
     (let xen_machines = [if hvm g then ''xenfv'' else ''xenpv''] in
      seq (virCapabilitiesAllocMachines xen_machines)
     (seq (virCapabilitiesAddGuest
             (if hvm g then VIR_DOMAIN_OSTYPE_HVM else VIR_DOMAIN_OSTYPE_XEN)
             (arch g)
             (LIBXL_EXECBIN_DIR e @ ''/qemu-system-i386'')
             (if hvm g then Some (LIBXL_FIRMWARE_DIR e @ ''/hvmloader'') else None)
             xen_machines)
     (seq (virCapabilitiesAddGuestDomain VIR_DOMAIN_VIRT_XEN)
     (seq (when_then (pae g) (virCapabilitiesAddGuestFeature ''pae'' True False))
     (seq (when_then (nonpae g) (virCapabilitiesAddGuestFeature ''nonpae'' True False))
     (seq (when_then (ia64_be g) (virCapabilitiesAddGuestFeature ''ia64_be'' True False))
     (when_then (hvm g)
        (seq (virCapabilitiesAddGuestFeature ''acpi'' True True)
        (seq (virCapabilitiesAddGuestFeature ''apic'' True False)
             (virCapabilitiesAddGuestFeature ''hap'' True True))))))))))"

fun emit_guests :: "env \<Rightarrow> guest_arch list \<Rightarrow> step" where
  "emit_guests e [] = ok"
| "emit_guests e (g # gs) = seq (emit_guest e g) (emit_guests e gs)"

definition libxlCapsInitGuests :: "env \<Rightarrow> step" where
  "libxlCapsInitGuests e s =
     (case version_info e of
        None \<Rightarrow> (Inl VersionInfoError, s)
      | Some ver_info \<Rightarrow>
          (case capabilities ver_info of
             None \<Rightarrow> (Inl CapabilitiesMissingError, s)
           | Some str \<Rightarrow>
               if regcomp_XEN_CAP_REGEX \<noteq> 0 then (Inl RegexCompileError, s)
               else
                 let (guest_archs, nr_guest_archs) = parse_capabilities str
                 in emit_guests e (take nr_guest_archs guest_archs) s))"

section \<open>Capability Assembler: \<^verbatim>\<open>libxlMakeCapabilities\<close>\<close>

text \<open>
  The result of the assembler: the pointer it returns (\<open>None\<close> for \<^verbatim>\<open>NULL\<close>), the
  capability object that is still allocated when it returns, and the allocator.
  Modelled from the spec: \<^verbatim>\<open>virCapabilitiesNew\<close> (which may fail to allocate) and
  \<^verbatim>\<open>virObjectUnref\<close>, which releases the object it is given, here the only
  reference to a fresh object.
\<close>

record assembled =
  returned :: "virCaps option"
  live :: "virCaps option"
  mem_after :: mem

definition virObjectUnref :: "virCaps \<Rightarrow> virCaps option" where
  "virObjectUnref c = None"

definition libxlMakeCapabilities :: "env \<Rightarrow> mem \<Rightarrow> assembled" where
  "libxlMakeCapabilities e m =
     (case virAlloc m of
        None \<Rightarrow> \<lparr>returned = None, live = None, mem_after = m\<rparr>
      | Some m0 \<Rightarrow>
          let c0 = (if LIBXL_HAVE_NO_SUSPEND_RESUME e
                    then virCapabilitiesNew (virArchFromHost e) False False
                    else virCapabilitiesNew (virArchFromHost e) True True) in
          (case libxlCapsInitHost e \<lparr>caps = c0, heap_mem = m0\<rparr> of
             (Inl err, s1) \<Rightarrow>
               \<lparr>returned = None, live = virObjectUnref (caps s1), mem_after = heap_mem s1\<rparr>
           | (Inr _, s1) \<Rightarrow>
               (case libxlCapsInitNuma e s1 of
                  (Inl err, s2) \<Rightarrow>
                    \<lparr>returned = None, live = virObjectUnref (caps s2), mem_after = heap_mem s2\<rparr>
                | (Inr _, s2) \<Rightarrow>
                    (case libxlCapsInitGuests e s2 of
                       (Inl err, s3) \<Rightarrow>
                         \<lparr>returned = None, live = virObjectUnref (caps s3),
                          mem_after = heap_mem s3\<rparr>
                     | (Inr _, s3) \<Rightarrow>
                         \<lparr>returned = Some (caps s3), live = Some (caps s3),
                          mem_after = heap_mem s3\<rparr>))))"

section \<open>Emulator Classifier: \<^verbatim>\<open>libxlDomainGetEmulatorType\<close>\<close>

datatype libxl_device_model_version =
    LIBXL_DEVICE_MODEL_VERSION_UNKNOWN
  | LIBXL_DEVICE_MODEL_VERSION_QEMU_XEN_TRADITIONAL
  | LIBXL_DEVICE_MODEL_VERSION_QEMU_XEN

record virDomainDef =
  os_type :: virDomainOSType
  def_emulator :: "string option"

text \<open>
  The host as the classifier sees it: \<^verbatim>\<open>virFileExists\<close>, and \<^verbatim>\<open>virCommandRun\<close> of a
  binary with an argument list and an output buffer, which gives the captured
  standard output (a C string) when it returns 0 and \<open>None\<close> when it fails.
\<close>

record host =
  virFileExists :: "string \<Rightarrow> bool"
  virCommandRun :: "string \<Rightarrow> string list \<Rightarrow> string option"

definition LIBXL_QEMU_DM_STR :: string where
  "LIBXL_QEMU_DM_STR = ''Options specific to the Xen version:''"

text \<open>\<^verbatim>\<open>strstr(haystack, needle) != NULL\<close>.\<close>

fun strstr :: "string \<Rightarrow> string \<Rightarrow> bool" where
  "strstr [] needle = (needle = [])"
| "strstr (c # cs) needle = (STRPREFIX (c # cs) needle \<or> strstr cs needle)"

definition libxlDomainGetEmulatorType :: "host \<Rightarrow> virDomainDef \<Rightarrow> libxl_device_model_version" where
  "libxlDomainGetEmulatorType h def =
     (let ret = LIBXL_DEVICE_MODEL_VERSION_QEMU_XEN in
      if os_type def = VIR_DOMAIN_OSTYPE_HVM then
        (case def_emulator def of
           None \<Rightarrow> ret
         | Some path \<Rightarrow>
             if \<not> virFileExists h path then ret
             else
               (case virCommandRun h path [''-help''] of
                  None \<Rightarrow> ret
                | Some output \<Rightarrow>
                    if strstr output LIBXL_QEMU_DM_STR
                    then LIBXL_DEVICE_MODEL_VERSION_QEMU_XEN_TRADITIONAL
                    else ret))
      else ret)"

section \<open>Node information from cpuinfo: \<^verbatim>\<open>linuxNodeInfoCPUPopulate\<close>\<close>

text \<open>
  The fields of \<^verbatim>\<open>virNodeInfo\<close> the function writes: \<^verbatim>\<open>unsigned int\<close>, 32 bits, so
  \<^verbatim>\<open>nodeinfo->cpus++\<close> wraps around at \<open>2 ^ 32\<close>.
\<close>

record virNodeInfo =
  cpus :: "32 word"
  mhz :: "32 word"
  nodes :: "32 word"
  sockets :: "32 word"
  cores :: "32 word"
  threads :: "32 word"

datatype cpuinfo_error =
    ParsingProcessor
  | ParsingMHz
  | ParsingCores
  | NoCpusFound
  | ReadPastLine

text \<open>
  \<^verbatim>\<open>fgets(line, sizeof(line), cpuinfo)\<close> with \<^verbatim>\<open>char line[1024]\<close>: it reads up to and
  including the next newline, at most 1023 characters, and returns \<^verbatim>\<open>NULL\<close> when
  nothing is left. \<open>fgets_from n cur f\<close> lists the chunks the successive calls read
  from \<open>f\<close>; \<open>cur\<close> is the chunk being read, reversed, and \<open>n\<close> the room left
  for it.
\<close>

definition sizeof_line :: nat where
  "sizeof_line = 1024"

fun fgets_from :: "nat \<Rightarrow> string \<Rightarrow> string \<Rightarrow> string list" where
  "fgets_from n cur [] = (if cur = [] then [] else [rev cur])"
| "fgets_from n cur (c # cs) =
     (if c = CHR 0x0A \<or> n \<le> 1
      then rev (c # cur) # fgets_from (sizeof_line - 1) [] cs
      else fgets_from (n - 1) (c # cur) cs)"

definition fgets_all :: "string \<Rightarrow> string list" where
  "fgets_all f = fgets_from (sizeof_line - 1) [] f"

text \<open>
  The array \<^verbatim>\<open>line\<close> after a call that read \<open>chunk\<close>: the chunk, the
  terminator, and behind it whatever the array held before.
\<close>

definition fgets_store :: "string \<Rightarrow> string \<Rightarrow> string" where
  "fgets_store chunk line = chunk @ CHR 0x00 # drop (Suc (length chunk)) line"

text \<open>
  Pointers into the array are the part of the array they point at: \<open>drop 9 line\<close>
  is \<^verbatim>\<open>buf\<close> after \<^verbatim>\<open>buf += 9\<close>, and the empty list is a pointer behind the last
  element, whose dereference reads outside the array. The loop
  \<^verbatim>\<open>while (*buf && c_isspace(*buf)) buf++\<close> is \<open>dropWhile c_isspace\<close>: the terminator
  is not white space.
\<close>

definition c_isspace :: "char \<Rightarrow> bool" where
  "c_isspace c = (c \<in> {CHR '' '', CHR 0x09, CHR 0x0A, CHR 0x0B, CHR 0x0C, CHR 0x0D})"

text \<open>
  What a function that expects a C string can read in the array from a pointer on:
  the characters up to and including the first terminator, or up to the end of the
  array when it holds no terminator behind the pointer.
\<close>

definition cstring :: "string \<Rightarrow> string" where
  "cstring a = takeWhile (\<lambda>x. x \<noteq> CHR 0x00) a @ take 1 (dropWhile (\<lambda>x. x \<noteq> CHR 0x00) a)"

text \<open>
  \<^verbatim>\<open>virStrToLong_ui(buf+1, &p, 10, &ui)\<close> is not among the sources; it is a parameter
  \<open>strtol\<close> of the model. It is given the characters it can read (\<open>cstring\<close> of the
  array from \<^verbatim>\<open>buf + 1\<close> on) and answers \<open>Failed\<close> when it returns \<open>-1\<close>,
  \<open>Value v p\<close> when it returns 0 with the value \<open>v\<close>, \<^verbatim>\<open>p\<close> pointing at the part \<open>p\<close>
  of what it was given, and \<open>Overrun\<close> when it needs a character behind those it was
  given, which is a read outside the array.
\<close>

datatype strtol_result =
    Overrun
  | Failed
  | Value "32 word" string

text \<open>
  The body of the loop on the array \<open>line\<close> as \<^verbatim>\<open>fgets\<close> left it. All three branches
  advance \<^verbatim>\<open>buf\<close> by 9, also the one whose prefix \<^verbatim>\<open>"cpu MHz"\<close> has 7 characters:
  there \<^verbatim>\<open>buf\<close> can point behind the terminator of a short line, into what the array
  held before. \<open>ReadPastLine\<close> is a read outside the array (undefined behaviour in C):
  it happens only when the characters from \<^verbatim>\<open>buf\<close> to the end of the array do not stop
  the scan.
\<close>

definition cpuinfo_line ::
  "(string \<Rightarrow> strtol_result) \<Rightarrow> string \<Rightarrow> virNodeInfo \<Rightarrow> cpuinfo_error + virNodeInfo" where
  "cpuinfo_line strtol line nodeinfo =
     (if STRPREFIX line ''processor'' then
        (case dropWhile c_isspace (drop 9 line) of
           [] \<Rightarrow> Inl ReadPastLine
         | c # _ \<Rightarrow>
             if c \<noteq> CHR '':'' then Inl ParsingProcessor
             else Inr (nodeinfo\<lparr>cpus := cpus nodeinfo + 1\<rparr>))
      else if STRPREFIX line ''cpu MHz'' then
        (case dropWhile c_isspace (drop 9 line) of
           [] \<Rightarrow> Inl ReadPastLine
         | c # buf1 \<Rightarrow>
             if c \<noteq> CHR '':'' then Inl ParsingMHz
             else
               (case buf1 of
                  [] \<Rightarrow> Inl ReadPastLine
                | c1 # _ \<Rightarrow>
                    if c1 = CHR 0x00 then Inl ParsingMHz
                    else
                      (case strtol (cstring buf1) of
                         Overrun \<Rightarrow> Inl ReadPastLine
                       | Failed \<Rightarrow> Inr nodeinfo
                       | Value ui p \<Rightarrow>
                           (case p of
                              [] \<Rightarrow> Inl ReadPastLine
                            | pc # _ \<Rightarrow>
                                if pc = CHR 0x00 \<or> pc = CHR ''.'' \<or> c_isspace pc
                                then Inr (nodeinfo\<lparr>mhz := ui\<rparr>) else Inr nodeinfo))))
      else if STRPREFIX line ''cpu cores'' then
        (case dropWhile c_isspace (drop 9 line) of
           [] \<Rightarrow> Inl ReadPastLine
         | c # buf1 \<Rightarrow>
             if c \<noteq> CHR '':'' then Inl ParsingCores
             else
               (case buf1 of
                  [] \<Rightarrow> Inl ReadPastLine
                | c1 # _ \<Rightarrow>
                    if c1 = CHR 0x00 then Inl ParsingCores
                    else
                      (case strtol (cstring buf1) of
                         Overrun \<Rightarrow> Inl ReadPastLine
                       | Failed \<Rightarrow> Inr nodeinfo
                       | Value id' p \<Rightarrow>
                           (case p of
                              [] \<Rightarrow> Inl ReadPastLine
                            | pc # _ \<Rightarrow>
                                if (pc = CHR 0x00 \<or> c_isspace pc) \<and> id' > cores nodeinfo
                                then Inr (nodeinfo\<lparr>cores := id'\<rparr>) else Inr nodeinfo))))
      else Inr nodeinfo)"

fun cpuinfo_loop ::
  "(string \<Rightarrow> strtol_result) \<Rightarrow> string list \<Rightarrow> string \<Rightarrow> virNodeInfo \<Rightarrow>
   cpuinfo_error + virNodeInfo" where
  "cpuinfo_loop strtol [] line nodeinfo = Inr nodeinfo"
| "cpuinfo_loop strtol (chunk # rest) line nodeinfo =
     (let line' = fgets_store chunk line in
      case cpuinfo_line strtol line' nodeinfo of
        Inl e \<Rightarrow> Inl e
      | Inr nodeinfo' \<Rightarrow> cpuinfo_loop strtol rest line' nodeinfo')"

text \<open>
  \<open>line0\<close> is what the array \<^verbatim>\<open>line\<close> holds on entry (it is not initialised; its
  length is \<^verbatim>\<open>sizeof(line)\<close>), \<open>cpuinfo\<close> what is left to read of the stream.
\<close>

definition linuxNodeInfoCPUPopulate ::
  "(string \<Rightarrow> strtol_result) \<Rightarrow> string \<Rightarrow> string \<Rightarrow> virNodeInfo \<Rightarrow>
   cpuinfo_error + virNodeInfo" where
  "linuxNodeInfoCPUPopulate strtol line0 cpuinfo nodeinfo =
     (let ni = nodeinfo\<lparr>cpus := 0, mhz := 0, nodes := 1, sockets := 1, cores := 1, threads := 1\<rparr> in
      case cpuinfo_loop strtol (fgets_all cpuinfo) line0 ni of
        Inl e \<Rightarrow> Inl e
      | Inr ni' \<Rightarrow>
          if cpus ni' = 0 then Inl NoCpusFound
          else Inr (ni'\<lparr>sockets := cpus ni' div cores ni'\<rparr>))"

section \<open>Notions used in the statements\<close>

text \<open>
  An example environment and state for the concrete instances below.
\<close>

definition example_env :: env where
  "example_env =
     \<lparr>physinfo = Some \<lparr>hw_cap = (\<lambda>i. if i = 0 then 0x1C3 else 0)\<rparr>,
      numainfo = Some [\<lparr>size' = 4096\<rparr>, \<lparr>size' = 0xFFFFFFFF\<rparr>, \<lparr>size' = 2048000\<rparr>],
      cputopology = Some
        [\<lparr>core = 0, socket = 0, node = 0\<rparr>, \<lparr>core = 0, socket = 0, node = 0\<rparr>,
         \<lparr>core = 1, socket = 0, node = 2\<rparr>, \<lparr>core = 0xFFFFFFFF, socket = 0, node = 7\<rparr>,
         \<lparr>core = 1, socket = 0, node = 1\<rparr>, \<lparr>core = 1, socket = 1, node = 2\<rparr>],
      version_info = Some \<lparr>capabilities = Some ''xen-3.0-x86_32p xen-3.0-x86_32 hvm-3.0-x86_64''\<rparr>,
      LIBXL_EXECBIN_DIR = ''/usr/lib/xen/bin'', LIBXL_FIRMWARE_DIR = ''/usr/lib/xen/boot'',
      LIBXL_GENERATED_PREFIX_XEN = ''vif'', LIBXL_HAVE_NO_SUSPEND_RESUME = False,
      virArchFromHost = VIR_ARCH_X86_64\<rparr>"

definition example_st :: st where
  "example_st = \<lparr>caps = virCapabilitiesNew VIR_ARCH_X86_64 True True, heap_mem = Unlimited\<rparr>"

text \<open>
  The retained profiles are the first \<^verbatim>\<open>nr_guest_archs\<close> entries of the array; the
  key of a profile is its (arch, hvm) tuple. \<open>merged g d\<close>: profile \<open>g\<close> has the
  tuple of the decoded token \<open>d\<close> and every flag \<open>d\<close> carries; \<open>covers s d\<close>: some
  retained profile of state \<open>s\<close> does.
\<close>

definition key :: "guest_arch \<Rightarrow> virArch \<times> bool" where
  "key g = (arch g, hvm g)"

definition retained :: "guest_arch list \<times> nat \<Rightarrow> guest_arch list" where
  "retained s = take (snd s) (fst s)"

definition merged :: "guest_arch \<Rightarrow> virArch \<times> bool \<times> bool \<times> bool \<times> bool \<Rightarrow> bool" where
  "merged g d = (case d of (a, h, p, np, be) \<Rightarrow>
     arch g = a \<and> hvm g = h \<and> (p \<longrightarrow> pae g) \<and> (np \<longrightarrow> nonpae g) \<and> (be \<longrightarrow> ia64_be g))"

definition covers :: "guest_arch list \<times> nat \<Rightarrow> virArch \<times> bool \<times> bool \<times> bool \<times> bool \<Rightarrow> bool" where
  "covers s d = (\<exists>i < snd s. merged (fst s ! i) d)"

definition flags_le :: "guest_arch \<Rightarrow> guest_arch \<Rightarrow> bool" where
  "flags_le g g' = (arch g' = arch g \<and> hvm g' = hvm g \<and> (pae g \<longrightarrow> pae g') \<and>
     (nonpae g \<longrightarrow> nonpae g') \<and> (ia64_be g \<longrightarrow> ia64_be g'))"

definition loop_inv :: "guest_arch list \<times> nat \<Rightarrow> bool" where
  "loop_inv s = (length (fst s) = ARRAY_CARDINALITY_guest_archs \<and>
     snd s \<le> ARRAY_CARDINALITY_guest_archs \<and>
     distinct (map key (retained s)) \<and>
     (\<forall>g \<in> set (retained s). arch g \<noteq> VIR_ARCH_NONE))"





text \<open>
  The NUMA builder, described by its result. A CPU counts when its core is not the
  sentinel; \<open>node_index\<close> is the index \<^verbatim>\<open>cpus[node]\<close> it is filed under.
  \<open>new_cpu\<close> is the entry the first loop appends, \<open>marks ps nd c\<close> the bits the
  second loop sets in entry \<open>c\<close> of node \<open>nd\<close> while it runs over \<open>ps\<close>,
  \<open>new_cell\<close> the cell the third loop adds, and \<open>node_cpus topo nd\<close> the finished
  CPU list of node \<open>nd\<close>.
\<close>

definition valid_core :: "libxl_cputopology \<Rightarrow> bool" where
  "valid_core t = (core t \<noteq> LIBXL_CPUTOPOLOGY_INVALID_ENTRY)"

definition node_index :: "libxl_cputopology \<Rightarrow> nat" where
  "node_index t = nat (sint (node t))"

definition new_cpu :: "nat \<Rightarrow> nat \<times> libxl_cputopology \<Rightarrow> virCapsHostNUMACellCPU" where
  "new_cpu nr_cpus p =
     \<lparr>cpu_id = fst p, socket_id = socket (snd p), core_id = core (snd p),
      siblings = virBitmapNew nr_cpus\<rparr>"

definition on_node :: "nat \<Rightarrow> nat \<times> libxl_cputopology \<Rightarrow> bool" where
  "on_node nd p = (valid_core (snd p) \<and> node_index (snd p) = nd)"

definition marks ::
  "(nat \<times> libxl_cputopology) list \<Rightarrow> nat \<Rightarrow> virCapsHostNUMACellCPU \<Rightarrow> nat set" where
  "marks ps nd c =
     {i. \<exists>t. (i, t) \<in> set ps \<and> on_node nd (i, t) \<and> socket_id c = socket t \<and>
          core_id c = core t \<and> i < bm_size (siblings c)}"

definition with_marks :: "nat set \<Rightarrow> virCapsHostNUMACellCPU \<Rightarrow> virCapsHostNUMACellCPU" where
  "with_marks M c = c\<lparr>siblings := (siblings c)\<lparr>bm_bits := bm_bits (siblings c) \<union> M\<rparr>\<rparr>"

definition new_cell ::
  "virCapsHostNUMACellCPU list list \<Rightarrow> nat \<times> libxl_numainfo \<Rightarrow> virCapsHostNUMACell" where
  "new_cell cs p = \<lparr>num = fst p, cell_mem = size' (snd p) div 1024, cell_cpus = cs ! fst p\<rparr>"

definition valid_size :: "nat \<times> libxl_numainfo \<Rightarrow> bool" where
  "valid_size p = (size' (snd p) \<noteq> ucast LIBXL_NUMAINFO_INVALID_ENTRY)"

text \<open>The CPU entry of CPU i as the builder leaves it.\<close>
definition final_cpu :: "libxl_cputopology list \<Rightarrow> nat \<Rightarrow> virCapsHostNUMACellCPU" where
  "final_cpu topo i =
     \<lparr>cpu_id = i, socket_id = socket (topo ! i), core_id = core (topo ! i),
      siblings = \<lparr>bm_size = length topo,
        bm_bits = {k. k < length topo \<and> valid_core (topo ! k) \<and>
                     node_index (topo ! k) = node_index (topo ! i) \<and>
                     socket (topo ! k) = socket (topo ! i) \<and>
                     core (topo ! k) = core (topo ! i)}\<rparr>\<rparr>"

definition node_cpus :: "libxl_cputopology list \<Rightarrow> nat \<Rightarrow> virCapsHostNUMACellCPU list" where
  "node_cpus topo nd =
     map (final_cpu topo)
       (filter (\<lambda>i. valid_core (topo ! i) \<and> node_index (topo ! i) = nd) [0..<length topo])"

text \<open>
  The guest the emission loop builds from one profile, and the steps that change the
  capability object by a given function whenever they succeed.
\<close>

definition feature :: "string \<Rightarrow> bool \<Rightarrow> bool \<Rightarrow> virCapsGuestFeature" where
  "feature n d t = \<lparr>name = n, defaultOn = d, toggle = t\<rparr>"

definition guest_of :: "env \<Rightarrow> guest_arch \<Rightarrow> virCapsGuest" where
  "guest_of e g =
     \<lparr>ostype = (if hvm g then VIR_DOMAIN_OSTYPE_HVM else VIR_DOMAIN_OSTYPE_XEN),
      guest_arch_of = arch g,
      emulator = LIBXL_EXECBIN_DIR e @ ''/qemu-system-i386'',
      loader = (if hvm g then Some (LIBXL_FIRMWARE_DIR e @ ''/hvmloader'') else None),
      machines = [if hvm g then ''xenfv'' else ''xenpv''],
      domains = [VIR_DOMAIN_VIRT_XEN],
      features =
        (if pae g then [feature ''pae'' True False] else []) @
        (if nonpae g then [feature ''nonpae'' True False] else []) @
        (if ia64_be g then [feature ''ia64_be'' True False] else []) @
        (if hvm g then [feature ''acpi'' True True, feature ''apic'' True False,
                        feature ''hap'' True True] else [])\<rparr>"

text \<open>A step that, whenever it succeeds, has changed the object by F.\<close>
definition updates :: "(virCaps \<Rightarrow> virCaps) \<Rightarrow> step \<Rightarrow> bool" where
  "updates F f = (\<forall>s u s'. f s = (Inr u, s') \<longrightarrow> caps s' = F (caps s))"



text \<open>
  A decimal reader to run the populator on examples: optional white space, then at
  least one digit; it stops at the first character that is not a digit, and fails when
  the value does not fit 32 bits (is greater than \<open>2 ^ 32 - 1 = 4294967295\<close>).
\<close>

definition digit_val :: "char \<Rightarrow> nat" where
  "digit_val c = of_char c - of_char CHR ''0''"

definition strtol_example :: "string \<Rightarrow> strtol_result" where
  "strtol_example s =
     (let t = dropWhile c_isspace s; ds = takeWhile is_digit t; r = dropWhile is_digit t;
          v = foldl (\<lambda>a c. 10 * a + int (digit_val c)) 0 ds in
      if t = [] then Overrun
      else if ds = [] then Failed
      else if r = [] then Overrun
      else if v > 4294967295 then Failed
      else Value (word_of_int v) r)"


definition nodeinfo_example :: virNodeInfo where
  "nodeinfo_example = \<lparr>cpus = 7, mhz = 7, nodes = 7, sockets = 7, cores = 7, threads = 7\<rparr>"


text \<open>
  The words of the pattern, written out: \<^verbatim>\<open>xen\<close> or \<^verbatim>\<open>hvm\<close>, a dash, digits, a dot,
  digits, a dash, one of the six architecture names and an optional \<^verbatim>\<open>p\<close> or
  \<^verbatim>\<open>be\<close>. The pattern occurs in a token when some part of the token is such a
  word; it need not be the whole token, since the pattern is not anchored.
\<close>

definition xen_cap_word :: "string \<Rightarrow> bool" where
  "xen_cap_word w =
     (\<exists>ty v1 v2 a sfx.
        w = ty @ ''-'' @ v1 @ ''.'' @ v2 @ ''-'' @ a @ sfx \<and>
        ty \<in> {''xen'', ''hvm''} \<and>
        v1 \<noteq> [] \<and> (\<forall>c \<in> set v1. is_digit c) \<and>
        v2 \<noteq> [] \<and> (\<forall>c \<in> set v2. is_digit c) \<and>
        a \<in> set regex_archs \<and> sfx \<in> {[], ''p'', ''be''})"

definition pattern_occurs :: "string \<Rightarrow> bool" where
  "pattern_occurs t = (\<exists>u w r. t = u @ w @ r \<and> xen_cap_word w)"

text \<open>A step that succeeds, and leaves the allocator as it is, when allocation cannot fail.\<close>

definition never_fails :: "step \<Rightarrow> bool" where
  "never_fails f =
     (\<forall>s. heap_mem s = Unlimited \<longrightarrow> fst (f s) = Inr () \<and> heap_mem (snd (f s)) = Unlimited)"

section \<open>Properties of the Guest Architecture Parser\<close>

subsection \<open>The search loop\<close>

lemma search_tuple_bounds:
  "i \<le> nr \<Longrightarrow> i \<le> search_tuple ga nr a h i \<and> search_tuple ga nr a h i \<le> nr"
proof (induction ga nr a h i rule: search_tuple.induct)
  case (1 ga nr a h i)
  show ?case
  proof (cases "i < nr \<and> \<not> (arch (ga ! i) = a \<and> hvm (ga ! i) = h)")
    case True
    with "1.IH" have "Suc i \<le> search_tuple ga nr a h (Suc i) \<and> search_tuple ga nr a h (Suc i) \<le> nr"
      by simp
    with True show ?thesis by (subst (1 2) search_tuple.simps) auto
  next
    case False
    with "1.prems" show ?thesis by (subst (1 2) search_tuple.simps) auto
  qed
qed

lemma search_tuple_le: "search_tuple ga nr a h 0 \<le> nr"
  using search_tuple_bounds [of 0 nr ga a h] by simp

lemma search_tuple_found:
  "i \<le> nr \<Longrightarrow> search_tuple ga nr a h i < nr \<Longrightarrow>
   arch (ga ! search_tuple ga nr a h i) = a \<and> hvm (ga ! search_tuple ga nr a h i) = h"
proof (induction ga nr a h i rule: search_tuple.induct)
  case (1 ga nr a h i)
  show ?case
  proof (cases "i < nr")
    case True
    show ?thesis
    proof (cases "arch (ga ! i) = a \<and> hvm (ga ! i) = h")
      case m: True
      with True have "search_tuple ga nr a h i = i" by (subst search_tuple.simps) simp
      with m show ?thesis by simp
    next
      case m: False
      with True have eq: "search_tuple ga nr a h i = search_tuple ga nr a h (Suc i)"
        by (subst search_tuple.simps) auto
      with "1.IH" [OF True m] True "1.prems" show ?thesis by simp
    qed
  next
    case False
    then have "search_tuple ga nr a h i = i" by (subst search_tuple.simps) simp
    with False "1.prems" show ?thesis by simp
  qed
qed

lemma search_tuple_first:
  "i \<le> j \<Longrightarrow> j < search_tuple ga nr a h i \<Longrightarrow> \<not> (arch (ga ! j) = a \<and> hvm (ga ! j) = h)"
proof (induction ga nr a h i rule: search_tuple.induct)
  case (1 ga nr a h i)
  show ?case
  proof (cases "i < nr")
    case True
    show ?thesis
    proof (cases "arch (ga ! i) = a \<and> hvm (ga ! i) = h")
      case m: True
      with True have "search_tuple ga nr a h i = i" by (subst search_tuple.simps) simp
      with "1.prems" show ?thesis by simp
    next
      case m: False
      with True have eq: "search_tuple ga nr a h i = search_tuple ga nr a h (Suc i)"
        by (subst search_tuple.simps) auto
      show ?thesis
      proof (cases "j = i")
        case True
        with m show ?thesis by simp
      next
        case False
        with "1.prems" have "Suc i \<le> j" by simp
        with "1.IH" [OF True m] "1.prems" eq show ?thesis by simp
      qed
    qed
  next
    case False
    then have "search_tuple ga nr a h i = i" by (subst search_tuple.simps) simp
    with "1.prems" show ?thesis by simp
  qed
qed

subsection \<open>One run of the loop body\<close>

lemma decode_token_arch:
  "decode_token t = Some (a, h, p, np, be) \<Longrightarrow> a \<noteq> VIR_ARCH_NONE"
  by (auto simp: decode_token_def Let_def split: option.splits if_splits prod.splits)

lemma loop_body_skip: "decode_token t = None \<Longrightarrow> loop_body s t = s"
  by (simp add: loop_body_def)

text \<open>The body on a token that decodes, when the search finds entry i < nr.\<close>
lemma loop_body_found:
  assumes d: "decode_token t = Some (a, h, p, np, be)"
    and i: "search_tuple ga nr a h 0 = i" "i < nr" "i < ARRAY_CARDINALITY_guest_archs"
  shows "loop_body (ga, nr) t =
     (ga[i := (ga ! i)\<lparr>pae := pae (ga ! i) \<or> p, nonpae := nonpae (ga ! i) \<or> np,
                       ia64_be := ia64_be (ga ! i) \<or> be\<rparr>], nr)"
proof -
  have k: "arch (ga ! i) = a \<and> hvm (ga ! i) = h"
    using search_tuple_found [of 0 nr ga a h] i by simp
  have same: "(ga ! i)\<lparr>arch := a, hvm := h\<rparr> = ga ! i"
    using k by (cases "ga ! i") auto
  show ?thesis using d i
    by (cases p; cases np; cases be) (simp_all add: loop_body_def Let_def same)
qed

lemma loop_body_new:
  assumes d: "decode_token t = Some (a, h, p, np, be)"
    and i: "search_tuple ga nr a h 0 = nr" "nr < ARRAY_CARDINALITY_guest_archs"
  shows "loop_body (ga, nr) t =
     (ga[nr := (ga ! nr)\<lparr>arch := a, hvm := h, pae := pae (ga ! nr) \<or> p,
                nonpae := nonpae (ga ! nr) \<or> np, ia64_be := ia64_be (ga ! nr) \<or> be\<rparr>], Suc nr)"
  using d i by (cases p; cases np; cases be) (simp_all add: loop_body_def Let_def)

lemma loop_body_full:
  assumes d: "decode_token t = Some (a, h, p, np, be)"
    and i: "search_tuple ga nr a h 0 \<ge> ARRAY_CARDINALITY_guest_archs"
  shows "loop_body (ga, nr) t = (ga, nr)"
  using d i by (simp add: loop_body_def Let_def)

lemma loop_body_cases [consumes 2, case_names none full found new]:
  assumes inv: "length ga = ARRAY_CARDINALITY_guest_archs" "nr \<le> ARRAY_CARDINALITY_guest_archs"
  obtains
    (none) "decode_token t = None" "loop_body (ga, nr) t = (ga, nr)"
  | (full) "nr = ARRAY_CARDINALITY_guest_archs" "loop_body (ga, nr) t = (ga, nr)"
  | (found) a h p np be i where "decode_token t = Some (a, h, p, np, be)" "i < nr"
      "arch (ga ! i) = a" "hvm (ga ! i) = h"
      "loop_body (ga, nr) t =
        (ga[i := (ga ! i)\<lparr>pae := pae (ga ! i) \<or> p, nonpae := nonpae (ga ! i) \<or> np,
                          ia64_be := ia64_be (ga ! i) \<or> be\<rparr>], nr)"
  | (new) a h p np be where "decode_token t = Some (a, h, p, np, be)"
      "nr < ARRAY_CARDINALITY_guest_archs"
      "\<forall>j < nr. \<not> (arch (ga ! j) = a \<and> hvm (ga ! j) = h)"
      "loop_body (ga, nr) t =
        (ga[nr := (ga ! nr)\<lparr>arch := a, hvm := h, pae := pae (ga ! nr) \<or> p,
                nonpae := nonpae (ga ! nr) \<or> np, ia64_be := ia64_be (ga ! nr) \<or> be\<rparr>], Suc nr)"
proof (cases "decode_token t")
  case None
  then show ?thesis using none by (simp add: loop_body_skip)
next
  case (Some d)
  obtain a h p np be where d: "d = (a, h, p, np, be)" by (cases d) auto
  let ?i = "search_tuple ga nr a h 0"
  have le: "?i \<le> nr" by (rule search_tuple_le)
  show ?thesis
  proof (cases "?i < nr")
    case True
    with inv have "?i < ARRAY_CARDINALITY_guest_archs" by simp
    from loop_body_found [OF Some [unfolded d] refl True this]
      search_tuple_found [of 0 nr ga a h] True Some d
    show ?thesis using found by simp
  next
    case False
    with le have eq: "?i = nr" by simp
    show ?thesis
    proof (cases "nr < ARRAY_CARDINALITY_guest_archs")
      case True
      have "\<forall>j < nr. \<not> (arch (ga ! j) = a \<and> hvm (ga ! j) = h)"
        using search_tuple_first [of 0 _ ga nr a h] eq by simp
      with loop_body_new [OF Some [unfolded d] eq True] Some d True
      show ?thesis using new by simp
    next
      case False
      with eq have ge: "?i \<ge> ARRAY_CARDINALITY_guest_archs" by simp
      from False inv have "nr = ARRAY_CARDINALITY_guest_archs" by simp
      with loop_body_full [OF Some [unfolded d] ge] show ?thesis using full by simp
    qed
  qed
qed

lemma loop_body_inv:
  assumes "loop_inv s"
  shows "loop_inv (loop_body s t)"
proof -
  obtain ga nr where s: "s = (ga, nr)" by (cases s)
  from assms s have len: "length ga = ARRAY_CARDINALITY_guest_archs"
    and nr: "nr \<le> ARRAY_CARDINALITY_guest_archs"
    and dist: "distinct (map key (take nr ga))"
    and arch: "\<forall>g \<in> set (take nr ga). arch g \<noteq> VIR_ARCH_NONE"
    by (simp_all add: loop_inv_def retained_def)
  from len nr show ?thesis
  proof (cases rule: loop_body_cases [where t = t])
    case none
    with assms s show ?thesis by simp
  next
    case full
    with assms s show ?thesis by simp
  next
    case (found a h p np be i)
    let ?g = "(ga ! i)\<lparr>pae := pae (ga ! i) \<or> p, nonpae := nonpae (ga ! i) \<or> np,
                          ia64_be := ia64_be (ga ! i) \<or> be\<rparr>"
    have i: "i < length (take nr ga)" using found(2) len nr by simp
    have tk: "take nr (ga[i := ?g]) = (take nr ga)[i := ?g]"
      by (simp add: take_update_swap)
    have "key ?g = map key (take nr ga) ! i"
      using found(2) i by (simp add: key_def)
    then have mk: "map key ((take nr ga)[i := ?g]) = map key (take nr ga)"
      by (simp only: map_update list_update_id)
    have "arch (ga ! i) \<noteq> VIR_ARCH_NONE"
      using arch i found(2) by (metis nth_mem nth_take)
    then have "\<forall>g \<in> set ((take nr ga)[i := ?g]). arch g \<noteq> VIR_ARCH_NONE"
      using arch by (auto dest!: set_update_subset_insert [THEN subsetD])
    with found(5) s len nr dist tk mk show ?thesis
      by (simp add: loop_inv_def retained_def)
  next
    case (new a h p np be)
    let ?g = "(ga ! nr)\<lparr>arch := a, hvm := h, pae := pae (ga ! nr) \<or> p,
                nonpae := nonpae (ga ! nr) \<or> np, ia64_be := ia64_be (ga ! nr) \<or> be\<rparr>"
    have nl: "nr < length ga" using new(2) len by simp
    have tk: "take (Suc nr) (ga[nr := ?g]) = take nr ga @ [?g]"
      using nl by (simp add: take_Suc_conv_app_nth)
    have "key ?g \<notin> set (map key (take nr ga))"
    proof
      assume "key ?g \<in> set (map key (take nr ga))"
      then obtain j where "j < nr" "key (ga ! j) = key ?g"
        using nl by (auto simp: in_set_conv_nth)
      with new(3) show False by (auto simp: key_def)
    qed
    moreover have "a \<noteq> VIR_ARCH_NONE" using new(1) by (rule decode_token_arch)
    ultimately show ?thesis using new(4) s len new(2) dist arch tk
      by (simp add: loop_inv_def retained_def)
  qed
qed

lemma loop_body_mono:
  assumes "loop_inv s"
  shows "snd s \<le> snd (loop_body s t) \<and>
         (\<forall>j < snd s. flags_le (fst s ! j) (fst (loop_body s t) ! j))"
proof -
  obtain ga nr where s: "s = (ga, nr)" by (cases s)
  from assms s have len: "length ga = ARRAY_CARDINALITY_guest_archs"
    and nr: "nr \<le> ARRAY_CARDINALITY_guest_archs"
    by (simp_all add: loop_inv_def)
  from len nr show ?thesis
  proof (cases rule: loop_body_cases [where t = t])
    case none
    with s show ?thesis by (simp add: flags_le_def)
  next
    case full
    with s show ?thesis by (simp add: flags_le_def)
  next
    case (found a h p np be i)
    with s len nr show ?thesis by (auto simp: flags_le_def nth_list_update)
  next
    case (new a h p np be)
    with s len nr show ?thesis by (auto simp: flags_le_def nth_list_update)
  qed
qed

lemma loop_body_covers:
  assumes "loop_inv s" "snd s < ARRAY_CARDINALITY_guest_archs" "decode_token t = Some d"
  shows "covers (loop_body s t) d"
proof -
  obtain ga nr where s: "s = (ga, nr)" by (cases s)
  from assms s have len: "length ga = ARRAY_CARDINALITY_guest_archs"
    and nr: "nr \<le> ARRAY_CARDINALITY_guest_archs" and lt: "nr < ARRAY_CARDINALITY_guest_archs"
    by (simp_all add: loop_inv_def)
  from len nr show ?thesis
  proof (cases rule: loop_body_cases [where t = t])
    case none
    with assms(3) show ?thesis by simp
  next
    case full
    with lt show ?thesis by simp
  next
    case (found a h p np be i)
    with assms(3) s len nr show ?thesis
      by (auto simp: covers_def merged_def intro!: exI [where x = i])
  next
    case (new a h p np be)
    with assms(3) s len nr lt show ?thesis
      by (auto simp: covers_def merged_def intro!: exI [where x = nr])
  qed
qed

lemma covers_mono:
  assumes "covers s d" "snd s \<le> snd s'" "\<forall>j < snd s. flags_le (fst s ! j) (fst s' ! j)"
  shows "covers s' d"
proof -
  from assms(1) obtain i where i: "i < snd s" "merged (fst s ! i) d"
    by (auto simp: covers_def)
  with assms(3) have "flags_le (fst s ! i) (fst s' ! i)" by simp
  with i(2) have "merged (fst s' ! i) d"
    by (auto simp: merged_def flags_le_def split: prod.splits)
  moreover from i(1) assms(2) have "i < snd s'" by simp
  ultimately show ?thesis unfolding covers_def by blast
qed

lemma card_valid_keys:
  "card ({VIR_ARCH_I686, VIR_ARCH_X86_64, VIR_ARCH_ITANIUM, VIR_ARCH_PPC64,
          VIR_ARCH_ARMV7L, VIR_ARCH_AARCH64} \<times> (UNIV :: bool set)) = 12"
  by (simp add: card_cartesian_product UNIV_bool)

lemma loop_inv_le12:
  assumes "loop_inv s"
  shows "snd s \<le> 12"
proof -
  let ?K = "{VIR_ARCH_I686, VIR_ARCH_X86_64, VIR_ARCH_ITANIUM, VIR_ARCH_PPC64,
          VIR_ARCH_ARMV7L, VIR_ARCH_AARCH64} \<times> (UNIV :: bool set)"
  from assms have len: "length (retained s) = snd s"
    by (simp add: loop_inv_def retained_def)
  have sub: "set (map key (retained s)) \<subseteq> ?K"
  proof
    fix k assume "k \<in> set (map key (retained s))"
    then obtain g where g: "g \<in> set (retained s)" "k = key g" by auto
    with assms have "arch g \<noteq> VIR_ARCH_NONE" by (simp add: loop_inv_def)
    then show "k \<in> ?K" using g(2) by (cases "arch g") (auto simp: key_def)
  qed
  from assms have "distinct (map key (retained s))" by (simp add: loop_inv_def)
  from distinct_card [OF this] len
  have "card (set (map key (retained s))) = snd s" by simp
  moreover have "card (set (map key (retained s))) \<le> card ?K"
    by (rule card_mono [OF _ sub]) simp
  ultimately show ?thesis by (simp only: card_valid_keys)
qed

lemma token_loop_inv: "loop_inv s \<Longrightarrow> loop_inv (token_loop s ts)"
  by (induction ts arbitrary: s) (simp_all add: loop_body_inv)

lemma token_loop_covers_mono:
  "loop_inv s \<Longrightarrow> covers s d \<Longrightarrow> covers (token_loop s ts) d"
proof (induction ts arbitrary: s)
  case Nil
  then show ?case by simp
next
  case (Cons t ts)
  from loop_body_mono [OF Cons.prems(1), of t] Cons.prems(2)
  have "covers (loop_body s t) d" by (auto intro: covers_mono)
  with Cons.IH [OF loop_body_inv [OF Cons.prems(1)]] Cons.prems show ?case by simp
qed

lemma token_loop_covers:
  "loop_inv s \<Longrightarrow> t \<in> set ts \<Longrightarrow> decode_token t = Some d \<Longrightarrow> covers (token_loop s ts) d"
proof (induction ts arbitrary: s)
  case Nil
  then show ?case by simp
next
  case (Cons u ts)
  have lt: "snd s < ARRAY_CARDINALITY_guest_archs"
    using loop_inv_le12 [OF Cons.prems(1)] by (simp add: ARRAY_CARDINALITY_guest_archs_def)
  have inv': "loop_inv (loop_body s u)" by (rule loop_body_inv [OF Cons.prems(1)])
  show ?case
  proof (cases "t = u")
    case True
    with Cons.prems lt have "covers (loop_body s u) d" by (simp add: loop_body_covers)
    with inv' lt show ?thesis by (simp add: token_loop_covers_mono)
  next
    case False
    with Cons.prems have "t \<in> set ts" by simp
    with Cons.IH [OF inv' this Cons.prems(3)] lt show ?thesis by simp
  qed
qed

lemma loop_inv_init:
  "loop_inv (replicate ARRAY_CARDINALITY_guest_archs zero_guest_arch, 0)"
  by (simp add: loop_inv_def retained_def)


lemma token_loop_no_match:
  "\<forall>t \<in> set ts. decode_token t = None \<Longrightarrow> token_loop s ts = s"
  by (induction ts arbitrary: s) (simp_all add: loop_body_skip)

lemma decode_token_no_match: "regexec t = None \<Longrightarrow> decode_token t = None"
  by (simp add: decode_token_def)

subsection \<open>The matcher finds the pattern exactly where it occurs\<close>

lemma STRPREFIX_split: "STRPREFIX s p \<Longrightarrow> s = p @ drop (length p) s"
  by (metis STRPREFIX_def append_take_drop_id)

lemma STRPREFIX_append [simp]: "STRPREFIX (p @ r) p"
  by (simp add: STRPREFIX_def)

lemma digits_split:
  "s = takeWhile is_digit s @ drop (length (takeWhile is_digit s)) s"
  by (metis takeWhile_dropWhile_id dropWhile_eq_drop)

lemma takeWhile_digits_stop:
  "\<forall>c \<in> set v. is_digit c \<Longrightarrow> \<not> is_digit x \<Longrightarrow> takeWhile is_digit (v @ x # r) = v"
  by (induction v) auto

lemma drop_add: "drop (a + b) s = drop b (drop a s)"
  by (simp add: add.commute)

lemma drop_one_more: "k' = Suc k \<Longrightarrow> drop k' s = drop 1 (drop k s)"
  by simp

lemma match_here_SomeD:
  assumes "match_here s = Some r"
  shows "(STRPREFIX s ''xen'' \<or> STRPREFIX s ''hvm'') \<and>
     STRPREFIX (drop 3 s) ''-'' \<and>
     length (takeWhile is_digit (drop 4 s)) \<noteq> 0 \<and>
     STRPREFIX (drop (4 + length (takeWhile is_digit (drop 4 s))) s) ''.'' \<and>
     length (takeWhile is_digit (drop (5 + length (takeWhile is_digit (drop 4 s))) s)) \<noteq> 0 \<and>
     STRPREFIX (drop (5 + length (takeWhile is_digit (drop 4 s)) +
        length (takeWhile is_digit (drop (5 + length (takeWhile is_digit (drop 4 s))) s))) s) ''-'' \<and>
     filter (STRPREFIX (drop (6 + length (takeWhile is_digit (drop 4 s)) +
        length (takeWhile is_digit (drop (5 + length (takeWhile is_digit (drop 4 s))) s))) s))
       regex_archs \<noteq> []"
proof -
  have *: "(if c then None else x) = Some r \<Longrightarrow> \<not> c \<and> x = Some r" for c and x :: "(nat \<times> nat option) option"
    by (cases c) simp_all
  note a0 = assms [unfolded match_here_def Let_def]
  note a1 = * [OF a0]
  note a2 = * [OF a1 [THEN conjunct2]]
  note a3 = * [OF a2 [THEN conjunct2]]
  note a4 = * [OF a3 [THEN conjunct2]]
  note a5 = * [OF a4 [THEN conjunct2]]
  note a6 = * [OF a5 [THEN conjunct2]]
  have a7: "filter (STRPREFIX (drop (6 + length (takeWhile is_digit (drop 4 s)) +
        length (takeWhile is_digit (drop (5 + length (takeWhile is_digit (drop 4 s))) s))) s))
       regex_archs \<noteq> []"
    using a6 [THEN conjunct2] by (auto split: list.splits)
  from a1 [THEN conjunct1] a2 [THEN conjunct1] a3 [THEN conjunct1] a4 [THEN conjunct1]
    a5 [THEN conjunct1] a6 [THEN conjunct1] a7
  show ?thesis by blast
qed

lemma match_here_Some_word:
  assumes "match_here s = Some (o2, o3)"
  shows "\<exists>w r. s = w @ r \<and> xen_cap_word w"
proof -
  define s1 where "s1 = drop 3 s"
  define s2 where "s2 = drop 1 s1"
  define v1 where "v1 = takeWhile is_digit s2"
  define s3 where "s3 = drop (length v1) s2"
  define s4 where "s4 = drop 1 s3"
  define v2 where "v2 = takeWhile is_digit s4"
  define s5 where "s5 = drop (length v2) s4"
  define s6 where "s6 = drop 1 s5"
  have e2: "drop 4 s = s2" by (simp add: s2_def s1_def)
  have e3: "drop (4 + length v1) s = s3"
    unfolding s3_def e2 [symmetric] by (simp add: add.commute)
  have e4: "drop (5 + length v1) s = s4"
    unfolding s4_def e3 [symmetric] by (simp add: add.commute)
  have e5: "drop (5 + length v1 + length v2) s = s5"
    unfolding s5_def e4 [symmetric] by (simp add: add.commute)
  have e6: "drop (6 + length v1 + length v2) s = s6"
    unfolding s6_def e5 [symmetric] by (simp add: ac_simps)
  note D = match_here_SomeD [OF assms, unfolded e2 v1_def [symmetric] e3 e4
      v2_def [symmetric] e5 e6 s1_def [symmetric]]
  from D have
    ty: "STRPREFIX s ''xen'' \<or> STRPREFIX s ''hvm''" and
    d1: "STRPREFIX s1 ''-''" and
    n1: "v1 \<noteq> []" and
    dot: "STRPREFIX s3 ''.''" and
    n2: "v2 \<noteq> []" and
    d2: "STRPREFIX s5 ''-''" and
    ar: "filter (STRPREFIX s6) regex_archs \<noteq> []"
    by simp_all
  from ty obtain t where t: "t \<in> {''xen'', ''hvm''}" "STRPREFIX s t" by blast
  then have lt: "length t = 3" by auto
  from ar obtain a where a: "a \<in> set regex_archs" "STRPREFIX s6 a"
    unfolding filter_empty_conv by blast
  have c0: "s = t @ s1" using STRPREFIX_split [OF t(2)] lt by (simp add: s1_def)
  have c1: "s1 = ''-'' @ s2" using STRPREFIX_split [OF d1] by (simp add: s2_def)
  have c2: "s2 = v1 @ s3" using digits_split [of s2] by (simp add: v1_def s3_def)
  have c3: "s3 = ''.'' @ s4" using STRPREFIX_split [OF dot] by (simp add: s4_def)
  have c4: "s4 = v2 @ s5" using digits_split [of s4] by (simp add: v2_def s5_def)
  have c5: "s5 = ''-'' @ s6" using STRPREFIX_split [OF d2] by (simp add: s6_def)
  have c6: "s6 = a @ drop (length a) s6" by (rule STRPREFIX_split [OF a(2)])
  have "s = (t @ ''-'' @ v1 @ ''.'' @ v2 @ ''-'' @ a @ []) @ drop (length a) s6"
    apply (subst c0, subst c1, subst c2, subst c3, subst c4, subst c5, subst c6)
    apply simp
    done
  moreover have "xen_cap_word (t @ ''-'' @ v1 @ ''.'' @ v2 @ ''-'' @ a @ [])"
  proof -
    have g1: "\<forall>c \<in> set v1. is_digit c" unfolding v1_def by (blast dest: set_takeWhileD)
    have g2: "\<forall>c \<in> set v2. is_digit c" unfolding v2_def by (blast dest: set_takeWhileD)
    have g3: "([] :: string) \<in> {[], ''p'', ''be''}" by blast
    show ?thesis
      unfolding xen_cap_word_def
      using t(1) a(1) n1 n2 g1 g2 g3 by blast
  qed
  ultimately show ?thesis by blast
qed

lemma match_here_word:
  assumes "xen_cap_word w"
  shows "match_here (w @ r) \<noteq> None"
proof -
  from assms obtain ty v1 v2 a sfx where
    w: "w = ty @ ''-'' @ v1 @ ''.'' @ v2 @ ''-'' @ a @ sfx" and
    ty: "ty \<in> {''xen'', ''hvm''}" and
    v1: "v1 \<noteq> []" "\<forall>c \<in> set v1. is_digit c" and
    v2: "v2 \<noteq> []" "\<forall>c \<in> set v2. is_digit c" and
    a: "a \<in> set regex_archs"
    unfolding xen_cap_word_def by blast
  let ?s = "w @ r"
  from ty have lt: "length ty = 3" by auto
  have nd: "\<not> is_digit CHR ''.''" "\<not> is_digit CHR ''-''" by (simp_all add: is_digit_def)
  have p0: "STRPREFIX ?s ''xen'' \<or> STRPREFIX ?s ''hvm''"
    using ty w by (auto simp: STRPREFIX_def)
  have d3: "drop 3 ?s = CHR ''-'' # v1 @ CHR ''.'' # v2 @ CHR ''-'' # a @ sfx @ r"
    using w lt by simp
  have d4: "drop 4 ?s = v1 @ CHR ''.'' # v2 @ CHR ''-'' # a @ sfx @ r"
    using w lt by simp
  have t1: "takeWhile is_digit (drop 4 ?s) = v1"
    unfolding d4 by (rule takeWhile_digits_stop [OF v1(2) nd(1)])
  have d4n: "drop (4 + length v1) ?s = CHR ''.'' # v2 @ CHR ''-'' # a @ sfx @ r"
    unfolding drop_add [of 4] d4 by simp
  have d5n: "drop (5 + length v1) ?s = v2 @ CHR ''-'' # a @ sfx @ r"
  proof -
    have "drop (5 + length v1) ?s = drop 1 (drop (4 + length v1) ?s)"
      by (rule drop_one_more) simp
    then show ?thesis unfolding d4n by simp
  qed
  have t2: "takeWhile is_digit (drop (5 + length v1) ?s) = v2"
    unfolding d5n by (rule takeWhile_digits_stop [OF v2(2) nd(2)])
  have d5nn: "drop (5 + length v1 + length v2) ?s = CHR ''-'' # a @ sfx @ r"
    unfolding drop_add [of "5 + length v1"] d5n by simp
  have d6: "drop (6 + length v1 + length v2) ?s = a @ sfx @ r"
  proof -
    have "drop (6 + length v1 + length v2) ?s = drop 1 (drop (5 + length v1 + length v2) ?s)"
      by (rule drop_one_more) simp
    then show ?thesis unfolding d5nn by simp
  qed
  have f: "filter (STRPREFIX (drop (6 + length v1 + length v2) ?s)) regex_archs \<noteq> []"
    unfolding d6 filter_empty_conv using a STRPREFIX_append [of a "sfx @ r"] by blast
  have q1: "STRPREFIX (drop 3 ?s) ''-''" unfolding d3 by (simp add: STRPREFIX_def)
  have q2: "STRPREFIX (drop (4 + length v1) ?s) ''.''" unfolding d4n by (simp add: STRPREFIX_def)
  have q3: "STRPREFIX (drop (5 + length v1 + length v2) ?s) ''-''"
    unfolding d5nn by (simp add: STRPREFIX_def)
  from f obtain x xs where
    fx: "filter (STRPREFIX (drop (6 + length v1 + length v2) ?s)) regex_archs = x # xs"
    by (cases "filter (STRPREFIX (drop (6 + length v1 + length v2) ?s)) regex_archs") auto
  show ?thesis
    unfolding match_here_def Let_def t1 t2 fx
    using p0 q1 q2 q3 v1(1) v2(1) by (simp del: drop_append)
qed

lemma match_here_iff:
  "match_here s \<noteq> None \<longleftrightarrow> (\<exists>w r. s = w @ r \<and> xen_cap_word w)"
  using match_here_Some_word match_here_word by (metis not_None_eq surj_pair)

lemma xen_cap_word_not_Nil: "\<not> xen_cap_word []"
  by (auto simp: xen_cap_word_def)

lemma regexec_from_iff:
  "regexec_from k t \<noteq> None \<longleftrightarrow> pattern_occurs t"
proof (induction t arbitrary: k)
  case Nil
  then show ?case by (auto simp: pattern_occurs_def xen_cap_word_not_Nil)
next
  case (Cons c cs)
  have "regexec_from k (c # cs) \<noteq> None \<longleftrightarrow>
        match_here (c # cs) \<noteq> None \<or> regexec_from (Suc k) cs \<noteq> None"
    by (auto split: option.splits)
  also have "\<dots> \<longleftrightarrow> (\<exists>w r. c # cs = w @ r \<and> xen_cap_word w) \<or> pattern_occurs cs"
    by (simp only: match_here_iff Cons.IH)
  also have "\<dots> \<longleftrightarrow> pattern_occurs (c # cs)"
  proof
    assume "(\<exists>w r. c # cs = w @ r \<and> xen_cap_word w) \<or> pattern_occurs cs"
    then show "pattern_occurs (c # cs)"
    proof
      assume "\<exists>w r. c # cs = w @ r \<and> xen_cap_word w"
      then obtain w r where "c # cs = [] @ w @ r" "xen_cap_word w" by auto
      then show ?thesis unfolding pattern_occurs_def by blast
    next
      assume "pattern_occurs cs"
      then obtain u w r where "c # cs = (c # u) @ w @ r" "xen_cap_word w"
        by (auto simp: pattern_occurs_def)
      then show ?thesis unfolding pattern_occurs_def by blast
    qed
  next
    assume "pattern_occurs (c # cs)"
    then obtain u w r where uw: "c # cs = u @ w @ r" "xen_cap_word w"
      by (auto simp: pattern_occurs_def)
    show "(\<exists>w r. c # cs = w @ r \<and> xen_cap_word w) \<or> pattern_occurs cs"
    proof (cases u)
      case Nil
      with uw show ?thesis by auto
    next
      case (Cons x u')
      with uw have "cs = u' @ w @ r" by simp
      with uw(2) show ?thesis unfolding pattern_occurs_def by blast
    qed
  qed
  finally show ?case .
qed

lemma regexec_iff: "regexec t \<noteq> None \<longleftrightarrow> pattern_occurs t"
  by (simp only: regexec_def regexec_from_iff)

subsection \<open>No failure without an allocation failure\<close>

lemma never_fails_ok: "never_fails ok"
  by (simp add: never_fails_def ok_def)

lemma never_fails_api_call: "never_fails (api_call F)"
  by (simp add: never_fails_def api_call_def)

lemma never_fails_seq: "never_fails f \<Longrightarrow> never_fails g \<Longrightarrow> never_fails (seq f g)"
  unfolding never_fails_def seq_def
  by (auto split: prod.splits sum.splits)

lemma never_fails_when: "never_fails f \<Longrightarrow> never_fails (when_then b f)"
  by (simp add: when_then_def never_fails_ok)

lemma never_fails_emit_guest: "never_fails (emit_guest e g)"
  unfolding emit_guest_def Let_def virCapabilitiesAllocMachines_def virCapabilitiesAddGuest_def
    virCapabilitiesAddGuestDomain_def virCapabilitiesAddGuestFeature_def
  by (intro never_fails_seq never_fails_when never_fails_api_call)

lemma never_fails_emit_guests: "never_fails (emit_guests e gs)"
  by (induction gs) (simp_all add: never_fails_ok never_fails_seq never_fails_emit_guest)

lemma libxlCapsInitGuests_Unlimited:
  "fst (libxlCapsInitGuests (e\<lparr>version_info := Some \<lparr>capabilities = Some str\<rparr>\<rparr>)
         \<lparr>caps = c, heap_mem = Unlimited\<rparr>) = Inr ()"
  using never_fails_emit_guests
  by (simp add: libxlCapsInitGuests_def regcomp_XEN_CAP_REGEX_def split_beta never_fails_def)

subsection \<open>The example string\<close>

lemma parse_example:
  "parse_capabilities ''xen-3.0-x86_32p xen-3.0-x86_32 hvm-3.0-x86_64'' =
   ((replicate ARRAY_CARDINALITY_guest_archs zero_guest_arch)
      [0 := \<lparr>arch = VIR_ARCH_I686, bits = 0, hvm = False, pae = True, nonpae = True,
              ia64_be = False\<rparr>,
       1 := \<lparr>arch = VIR_ARCH_X86_64, bits = 0, hvm = True, pae = False, nonpae = False,
              ia64_be = False\<rparr>], 2)"
  by code_simp

lemma upd_last_single [simp]: "upd_last f [x] = [f x]"
  by (simp add: upd_last_def)

lemma upd_last_append [simp]: "ys \<noteq> [] \<Longrightarrow> upd_last f (xs @ ys) = xs @ upd_last f ys"
  by (cases ys rule: rev_cases) (simp_all add: upd_last_def)

lemma upd_last_Cons2 [simp]: "upd_last f (x # y # ys) = x # upd_last f (y # ys)"
  using upd_last_append [of "y # ys" f "[x]"] by simp

lemmas guest_api_defs =
  emit_guest_def seq_def ok_def when_then_def api_call_def virCapabilitiesAllocMachines_def
  virCapabilitiesAddGuest_def virCapabilitiesAddGuestDomain_def
  virCapabilitiesAddGuestFeature_def

text \<open>
  Claim C1. On the capability string
  \<^verbatim>\<open>"xen-3.0-x86_32p xen-3.0-x86_32 hvm-3.0-x86_64"\<close> the parser retains exactly two
  profiles, in the order of first occurrence: (x86_32, PV) with pae and nonpae both
  set, and (x86_64, HVM). When no allocation fails, the step succeeds and appends
  exactly two guests to the capability object: the PV guest for x86_32 with the
  features "pae" and "nonpae", and the HVM guest for x86_64 with the features
  "acpi", "apic", "hap" and a loader path, which is not empty.
\<close>

theorem example_string_two_guests:
  "retained (parse_capabilities ''xen-3.0-x86_32p xen-3.0-x86_32 hvm-3.0-x86_64'') =
     [\<lparr>arch = VIR_ARCH_I686, bits = 0, hvm = False, pae = True, nonpae = True, ia64_be = False\<rparr>,
      \<lparr>arch = VIR_ARCH_X86_64, bits = 0, hvm = True, pae = False, nonpae = False,
       ia64_be = False\<rparr>] \<and>
   libxlCapsInitGuests
     (e\<lparr>version_info :=
          Some \<lparr>capabilities = Some ''xen-3.0-x86_32p xen-3.0-x86_32 hvm-3.0-x86_64''\<rparr>\<rparr>)
     \<lparr>caps = c, heap_mem = Unlimited\<rparr> =
   (Inr (), \<lparr>caps = c\<lparr>guests := guests c @
       [\<lparr>ostype = VIR_DOMAIN_OSTYPE_XEN, guest_arch_of = VIR_ARCH_I686,
         emulator = LIBXL_EXECBIN_DIR e @ ''/qemu-system-i386'', loader = None,
         machines = [''xenpv''], domains = [VIR_DOMAIN_VIRT_XEN],
         features = [\<lparr>name = ''pae'', defaultOn = True, toggle = False\<rparr>,
                     \<lparr>name = ''nonpae'', defaultOn = True, toggle = False\<rparr>]\<rparr>,
        \<lparr>ostype = VIR_DOMAIN_OSTYPE_HVM, guest_arch_of = VIR_ARCH_X86_64,
         emulator = LIBXL_EXECBIN_DIR e @ ''/qemu-system-i386'',
         loader = Some (LIBXL_FIRMWARE_DIR e @ ''/hvmloader''),
         machines = [''xenfv''], domains = [VIR_DOMAIN_VIRT_XEN],
         features = [\<lparr>name = ''acpi'', defaultOn = True, toggle = True\<rparr>,
                     \<lparr>name = ''apic'', defaultOn = True, toggle = False\<rparr>,
                     \<lparr>name = ''hap'', defaultOn = True, toggle = True\<rparr>]\<rparr>]\<rparr>,
      heap_mem = Unlimited\<rparr>) \<and>
   LIBXL_FIRMWARE_DIR e @ ''/hvmloader'' \<noteq> []"
proof -
  have prof: "retained (parse_capabilities ''xen-3.0-x86_32p xen-3.0-x86_32 hvm-3.0-x86_64'') =
     [\<lparr>arch = VIR_ARCH_I686, bits = 0, hvm = False, pae = True, nonpae = True, ia64_be = False\<rparr>,
      \<lparr>arch = VIR_ARCH_X86_64, bits = 0, hvm = True, pae = False, nonpae = False,
       ia64_be = False\<rparr>]"
    by (simp add: retained_def parse_example ARRAY_CARDINALITY_guest_archs_def
        zero_guest_arch_def eval_nat_numeral)
  then have tk: "take 2 (fst (parse_capabilities ''xen-3.0-x86_32p xen-3.0-x86_32 hvm-3.0-x86_64''))
      = [\<lparr>arch = VIR_ARCH_I686, bits = 0, hvm = False, pae = True, nonpae = True, ia64_be = False\<rparr>,
      \<lparr>arch = VIR_ARCH_X86_64, bits = 0, hvm = True, pae = False, nonpae = False,
       ia64_be = False\<rparr>]"
    by (simp add: retained_def parse_example)
  have nr: "snd (parse_capabilities ''xen-3.0-x86_32p xen-3.0-x86_32 hvm-3.0-x86_64'') = 2"
    by (simp add: parse_example)
  have run: "libxlCapsInitGuests
     (e\<lparr>version_info :=
          Some \<lparr>capabilities = Some ''xen-3.0-x86_32p xen-3.0-x86_32 hvm-3.0-x86_64''\<rparr>\<rparr>)
     \<lparr>caps = c, heap_mem = Unlimited\<rparr> =
     emit_guests
       (e\<lparr>version_info :=
          Some \<lparr>capabilities = Some ''xen-3.0-x86_32p xen-3.0-x86_32 hvm-3.0-x86_64''\<rparr>\<rparr>)
       [\<lparr>arch = VIR_ARCH_I686, bits = 0, hvm = False, pae = True, nonpae = True, ia64_be = False\<rparr>,
        \<lparr>arch = VIR_ARCH_X86_64, bits = 0, hvm = True, pae = False, nonpae = False,
         ia64_be = False\<rparr>]
       \<lparr>caps = c, heap_mem = Unlimited\<rparr>"
    using tk nr
    by (simp add: libxlCapsInitGuests_def regcomp_XEN_CAP_REGEX_def split_beta)
  show ?thesis
    unfolding run using prof by (simp add: guest_api_defs)
qed

subsection \<open>Capacity and merging\<close>









text \<open>
  Claim C9. After any number of tokens the array still has its 32 entries and
  \<^verbatim>\<open>nr_guest_archs\<close> is at most 32. Whenever the loop condition lets the body run
  (\<^verbatim>\<open>nr_guest_archs < 32\<close>) on a token that decodes, the index the search loop
  leaves is at most \<^verbatim>\<open>nr_guest_archs\<close> and so below 32: the test
  \<^verbatim>\<open>i >= ARRAY_CARDINALITY(guest_archs)\<close> is false, its \<^verbatim>\<open>continue\<close> is never
  taken, and the entries the search reads and the body writes are inside the array.
\<close>

theorem token_loop_in_bounds:
  "length (fst (token_loop (replicate ARRAY_CARDINALITY_guest_archs zero_guest_arch, 0) pre)) = 32 \<and>
   snd (token_loop (replicate ARRAY_CARDINALITY_guest_archs zero_guest_arch, 0) pre) \<le> 32 \<and>
   (snd (token_loop (replicate ARRAY_CARDINALITY_guest_archs zero_guest_arch, 0) pre) < 32 \<longrightarrow>
    decode_token token = Some (a, h, p, np, be) \<longrightarrow>
    search_tuple (fst (token_loop (replicate ARRAY_CARDINALITY_guest_archs zero_guest_arch, 0) pre))
                 (snd (token_loop (replicate ARRAY_CARDINALITY_guest_archs zero_guest_arch, 0) pre)) a h 0
      < ARRAY_CARDINALITY_guest_archs \<and>
    search_tuple (fst (token_loop (replicate ARRAY_CARDINALITY_guest_archs zero_guest_arch, 0) pre))
                 (snd (token_loop (replicate ARRAY_CARDINALITY_guest_archs zero_guest_arch, 0) pre)) a h 0
      \<le> snd (token_loop (replicate ARRAY_CARDINALITY_guest_archs zero_guest_arch, 0) pre))"
proof -
  let ?s = "token_loop (replicate ARRAY_CARDINALITY_guest_archs zero_guest_arch, 0) pre"
  have inv: "loop_inv ?s" by (rule token_loop_inv [OF loop_inv_init])
  then have "length (fst ?s) = 32" "snd ?s \<le> 32"
    by (simp_all add: loop_inv_def ARRAY_CARDINALITY_guest_archs_def)
  moreover have le: "search_tuple (fst ?s) (snd ?s) a h 0 \<le> snd ?s"
    by (rule search_tuple_le)
  moreover have "search_tuple (fst ?s) (snd ?s) a h 0 < ARRAY_CARDINALITY_guest_archs"
    if "snd ?s < 32"
    using le that by (simp add: ARRAY_CARDINALITY_guest_archs_def)
  ultimately show ?thesis by blast
qed

theorem token_loop_in_bounds_witness:
  "snd (token_loop (replicate ARRAY_CARDINALITY_guest_archs zero_guest_arch, 0)
          [''xen-3.0-x86_32p'']) < 32 \<and>
   decode_token ''hvm-3.0-x86_64'' = Some (VIR_ARCH_X86_64, True, False, False, False) \<and>
   search_tuple
     (fst (token_loop (replicate ARRAY_CARDINALITY_guest_archs zero_guest_arch, 0)
             [''xen-3.0-x86_32p'']))
     (snd (token_loop (replicate ARRAY_CARDINALITY_guest_archs zero_guest_arch, 0)
             [''xen-3.0-x86_32p''])) VIR_ARCH_X86_64 True 0
     < ARRAY_CARDINALITY_guest_archs"
proof -
  have n: "snd (token_loop (replicate ARRAY_CARDINALITY_guest_archs zero_guest_arch, 0)
          [''xen-3.0-x86_32p'']) < 32"
    by code_simp
  have d: "decode_token ''hvm-3.0-x86_64'' = Some (VIR_ARCH_X86_64, True, False, False, False)"
    by code_simp
  from token_loop_in_bounds [of "[''xen-3.0-x86_32p'']" "''hvm-3.0-x86_64''"
      VIR_ARCH_X86_64 True False False False] n d
  show ?thesis by blast
qed

section \<open>Properties of the Host Feature Probe\<close>

lemma pae_mask_bit: "(w AND LIBXL_X86_FEATURE_PAE_MASK \<noteq> 0) = bit (w :: 32 word) 6"
proof -
  have m: "LIBXL_X86_FEATURE_PAE_MASK = (2 :: 32 word) ^ 6"
    by (simp add: LIBXL_X86_FEATURE_PAE_MASK_def)
  show ?thesis unfolding m by (simp only: and_exp_eq_0_iff_not_bit not_not)
qed

lemma api_call_result:
  "api_call upd s = (Inr u, s') \<Longrightarrow> caps s' = upd (caps s)"
  by (auto simp: api_call_def split: option.splits)

lemma api_call_fail_state:
  "api_call upd s = (Inl err, s') \<Longrightarrow> s' = s"
  by (auto simp: api_call_def split: option.splits)

lemma libxlCapsInitHost_features:
  assumes "physinfo e = Some phy" "libxlCapsInitHost e s = (Inr u, s')"
  shows "host_features (caps s') =
         host_features (caps s) @ (if bit (hw_cap phy 0) 6 then [''pae''] else [])"
  using assms
  by (auto simp: libxlCapsInitHost_def Let_def seq_def when_then_def ok_def pae_mask_bit
      virCapabilitiesAddHostFeature_def virCapabilitiesSetNetPrefix_def api_call_def
      split: option.splits prod.splits sum.splits if_splits)

lemma libxlCapsInitHost_no_pae:
  assumes "physinfo e = Some phy" "\<not> bit (hw_cap phy 0) 6"
  shows "host_features (caps (snd (libxlCapsInitHost e s))) = host_features (caps s)"
  using assms
  by (auto simp: libxlCapsInitHost_def Let_def seq_def when_then_def ok_def pae_mask_bit
      virCapabilitiesAddHostFeature_def virCapabilitiesSetNetPrefix_def api_call_def
      split: option.splits prod.splits sum.splits if_splits)

lemma libxlCapsInitHost_Unlimited:
  assumes "physinfo e = Some phy" "heap_mem s = Unlimited"
  shows "fst (libxlCapsInitHost e s) = Inr ()"
  using assms
  by (auto simp: libxlCapsInitHost_def Let_def seq_def when_then_def ok_def pae_mask_bit
      virCapabilitiesAddHostFeature_def virCapabilitiesSetNetPrefix_def api_call_def
      split: option.splits prod.splits sum.splits if_splits)

section \<open>Properties of the NUMA Topology Builder\<close>

lemma collect_cpus_result:
  "collect_cpus n ps cs0 m = Inr (cs, m') \<Longrightarrow>
   length cs = length cs0 \<and>
   (\<forall>nd < length cs0. cs ! nd = cs0 ! nd @ map (new_cpu n) (filter (on_node nd) ps)) \<and>
   (\<forall>p \<in> set ps. valid_core (snd p) \<longrightarrow> node_index (snd p) < length cs0)"
proof (induction ps arbitrary: cs0 m)
  case Nil
  then show ?case by simp
next
  case (Cons p ps)
  obtain i t where p: "p = (i, t)" by (cases p)
  show ?case
  proof (cases "core t = LIBXL_CPUTOPOLOGY_INVALID_ENTRY")
    case True
    with Cons.prems p have "collect_cpus n ps cs0 m = Inr (cs, m')" by simp
    from Cons.IH [OF this] True p show ?thesis by (simp add: on_node_def valid_core_def)
  next
    case False
    from Cons.prems p False
    have rng: "0 \<le> sint (node t)" "sint (node t) < int (length cs0)"
      by (auto split: if_splits)
    then have nl: "node_index t < length cs0" by (simp add: node_index_def)
    let ?c1 = "cs0[node_index t := cs0 ! node_index t @ [new_cpu n (i, t)]]"
    from Cons.prems p False rng obtain m2 where
      rec: "collect_cpus n ps ?c1 m2 = Inr (cs, m')"
      by (auto simp: node_index_def new_cpu_def Let_def split: option.splits if_splits)
    from Cons.IH [OF rec] have
      len: "length cs = length cs0" and
      ent: "\<forall>nd < length cs0. cs ! nd = ?c1 ! nd @ map (new_cpu n) (filter (on_node nd) ps)" and
      bnd: "\<forall>p \<in> set ps. valid_core (snd p) \<longrightarrow> node_index (snd p) < length cs0"
      by simp_all
    have "cs ! nd = cs0 ! nd @ map (new_cpu n) (filter (on_node nd) (p # ps))"
      if "nd < length cs0" for nd
      using ent that p False nl
      by (cases "nd = node_index t") (simp_all add: on_node_def valid_core_def)
    with len bnd nl p show ?thesis by simp
  qed
qed

lemma mark_sibling_with_marks:
  "mark_sibling i t c =
     with_marks (if socket_id c = socket t \<and> core_id c = core t \<and> i < bm_size (siblings c)
                 then {i} else {}) c"
  by (simp add: mark_sibling_def with_marks_def virBitmapSetBit_def)

lemma with_marks_with_marks: "with_marks M (with_marks N c) = with_marks (N \<union> M) c"
  by (simp add: with_marks_def Un_assoc)

lemma marks_with_marks [simp]: "marks ps nd (with_marks M c) = marks ps nd c"
  by (simp add: marks_def with_marks_def)

lemma with_marks_empty [simp]: "with_marks {} c = c"
  by (simp add: with_marks_def)

lemma populate_siblings_result:
  "length (populate_siblings ps cs) = length cs \<and>
   (\<forall>nd < length cs.
      populate_siblings ps cs ! nd = map (\<lambda>c. with_marks (marks ps nd c) c) (cs ! nd))"
proof (induction ps arbitrary: cs)
  case Nil
  then show ?case by (simp add: marks_def)
next
  case (Cons p ps)
  obtain i t where p: "p = (i, t)" by (cases p)
  show ?case
  proof (cases "core t = LIBXL_CPUTOPOLOGY_INVALID_ENTRY")
    case True
    then have "marks (p # ps) nd c = marks ps nd c" for nd c
      using p by (auto simp: marks_def on_node_def valid_core_def)
    with Cons.IH [of cs] True p show ?thesis by simp
  next
    case False
    let ?n = "node_index t"
    let ?c1 = "cs[?n := map (mark_sibling i t) (cs ! ?n)]"
    have eq: "populate_siblings (p # ps) cs = populate_siblings ps ?c1"
      using p False by (simp add: node_index_def Let_def)
    have step: "with_marks (marks ps nd c') c' = with_marks (marks (p # ps) nd c) c"
      if "c' = (if nd = ?n then mark_sibling i t c else c)" for nd c c'
    proof (cases "nd = ?n")
      case True
      have "marks (p # ps) nd c =
          (if socket_id c = socket t \<and> core_id c = core t \<and> i < bm_size (siblings c)
           then {i} else {}) \<union> marks ps nd c"
        using p False True by (auto simp: marks_def on_node_def valid_core_def)
      with that True show ?thesis
        by (simp add: mark_sibling_with_marks with_marks_with_marks)
    next
      case F: False
      have "marks (p # ps) nd c = marks ps nd c"
        using p F by (auto simp: marks_def on_node_def)
      with that F show ?thesis by simp
    qed
    have "populate_siblings ps ?c1 ! nd = map (\<lambda>c. with_marks (marks (p # ps) nd c) c) (cs ! nd)"
      if nd: "nd < length cs" for nd
    proof -
      from Cons.IH [of ?c1] nd
      have "populate_siblings ps ?c1 ! nd = map (\<lambda>c. with_marks (marks ps nd c) c) (?c1 ! nd)"
        by simp
      also have "?c1 ! nd = map (\<lambda>c. if nd = ?n then mark_sibling i t c else c) (cs ! nd)"
        using nd by (cases "nd = ?n") simp_all
      finally show ?thesis by (simp add: step o_def)
    qed
    moreover have "length (populate_siblings ps ?c1) = length cs"
      using Cons.IH [of ?c1] by simp
    ultimately show ?thesis unfolding eq by simp
  qed
qed

lemma add_cells_result:
  "add_cells ps cs s = (Inr u, s') \<Longrightarrow>
   caps s' = (caps s)\<lparr>numa_cells := numa_cells (caps s) @ map (new_cell cs) (filter valid_size ps)\<rparr>"
proof (induction ps arbitrary: s)
  case Nil
  then show ?case by (simp add: ok_def)
next
  case (Cons p ps)
  obtain i ni where p: "p = (i, ni)" by (cases p)
  show ?case
  proof (cases "valid_size p")
    case False
    with Cons.prems p have "add_cells ps cs s = (Inr u, s')" by (simp add: valid_size_def)
    from Cons.IH [OF this] False show ?thesis by simp
  next
    case True
    with Cons.prems p obtain s1 where
      s1: "virCapabilitiesAddHostNUMACell i (size' ni div 1024) (cs ! i) s = (Inr (), s1)"
      and rest: "add_cells ps cs s1 = (Inr u, s')"
      by (auto simp: valid_size_def seq_def split: prod.splits sum.splits)
    from s1 have "caps s1 = (caps s)\<lparr>numa_cells := numa_cells (caps s) @ [new_cell cs p]\<rparr>"
      using p by (auto simp: virCapabilitiesAddHostNUMACell_def new_cell_def
          dest: api_call_result)
    with Cons.IH [OF rest] True show ?thesis by simp
  qed
qed

lemma filter_zip_upt:
  "filter (\<lambda>p. P (fst p) (snd p)) (zip [0..<length xs] xs) =
   map (\<lambda>i. (i, xs ! i)) (filter (\<lambda>i. P i (xs ! i)) [0..<length xs])"
proof (induction xs rule: rev_induct)
  case Nil
  then show ?case by simp
next
  case (snoc x xs)
  have z: "zip [0..<length (xs @ [x])] (xs @ [x]) = zip [0..<length xs] xs @ [(length xs, x)]"
    by simp
  have m: "map (\<lambda>i. (i, (xs @ [x]) ! i)) (filter (\<lambda>i. P i ((xs @ [x]) ! i)) [0..<length xs]) =
           map (\<lambda>i. (i, xs ! i)) (filter (\<lambda>i. P i (xs ! i)) [0..<length xs])"
    by (intro map_cong filter_cong) (auto simp: nth_append)
  show ?case unfolding z using snoc.IH m by simp
qed

lemma in_set_zip_upt:
  "(i, t) \<in> set (zip [0..<length xs] xs) \<longleftrightarrow> i < length xs \<and> t = xs ! i"
proof
  assume "(i, t) \<in> set (zip [0..<length xs] xs)"
  then show "i < length xs \<and> t = xs ! i" by (auto simp: set_zip)
next
  assume a: "i < length xs \<and> t = xs ! i"
  then have "(i, t) = ([0..<length xs] ! i, xs ! i)" by simp
  with a show "(i, t) \<in> set (zip [0..<length xs] xs)"
    unfolding set_zip by (intro CollectI exI [where x = i]) simp
qed

lemma numa_passes_result:
  assumes c: "collect_cpus (length topo) (zip [0..<length topo] topo) (replicate nn []) m
                = Inr (cs, m')"
    and nd: "nd < nn"
  shows "populate_siblings (zip [0..<length topo] topo) cs ! nd = node_cpus topo nd"
proof -
  let ?ps = "zip [0..<length topo] topo"
  from collect_cpus_result [OF c] nd have
    len: "length cs = nn" and
    ent: "cs ! nd = map (new_cpu (length topo)) (filter (on_node nd) ?ps)"
    by simp_all
  have f: "filter (on_node nd) ?ps =
      map (\<lambda>i. (i, topo ! i))
        (filter (\<lambda>i. valid_core (topo ! i) \<and> node_index (topo ! i) = nd) [0..<length topo])"
    using filter_zip_upt [of "\<lambda>i t. valid_core t \<and> node_index t = nd" topo]
    by (simp add: on_node_def [abs_def])
  from populate_siblings_result [of ?ps cs] nd len
  have "populate_siblings ?ps cs ! nd = map (\<lambda>c. with_marks (marks ?ps nd c) c) (cs ! nd)"
    by simp
  also have "\<dots> = map (\<lambda>i. with_marks (marks ?ps nd (new_cpu (length topo) (i, topo ! i)))
                             (new_cpu (length topo) (i, topo ! i)))
        (filter (\<lambda>i. valid_core (topo ! i) \<and> node_index (topo ! i) = nd) [0..<length topo])"
    unfolding ent f by (simp add: o_def)
  also have "\<dots> = node_cpus topo nd"
    unfolding node_cpus_def
  proof (rule map_cong [OF refl])
    fix i assume "i \<in> set (filter (\<lambda>i. valid_core (topo ! i) \<and> node_index (topo ! i) = nd)
                             [0..<length topo])"
    then have i: "i < length topo" "valid_core (topo ! i)" "node_index (topo ! i) = nd" by auto
    have "marks ?ps nd (new_cpu (length topo) (i, topo ! i)) =
          {k. k < length topo \<and> valid_core (topo ! k) \<and>
              node_index (topo ! k) = node_index (topo ! i) \<and>
              socket (topo ! k) = socket (topo ! i) \<and> core (topo ! k) = core (topo ! i)}"
      using i by (auto simp: marks_def in_set_zip_upt on_node_def new_cpu_def virBitmapNew_def)
    then show "with_marks (marks ?ps nd (new_cpu (length topo) (i, topo ! i)))
                 (new_cpu (length topo) (i, topo ! i)) = final_cpu topo i"
      by (simp add: with_marks_def new_cpu_def final_cpu_def virBitmapNew_def)
  qed
  finally show ?thesis .
qed

lemma libxlCapsInitNuma_result:
  assumes "libxlCapsInitNuma e s = (Inr u, s')"
  obtains numa_info topo where
    "numainfo e = Some numa_info" "cputopology e = Some topo"
    "numa_info \<noteq> []" "topo \<noteq> []"
    "\<forall>i < length topo. valid_core (topo ! i) \<longrightarrow> node_index (topo ! i) < length numa_info"
    "caps s' = (caps s)\<lparr>numa_cells := numa_cells (caps s) @
        map (\<lambda>i. \<lparr>num = i, cell_mem = size' (numa_info ! i) div 1024,
                  cell_cpus = node_cpus topo i\<rparr>)
          (filter (\<lambda>i. size' (numa_info ! i) \<noteq> ucast LIBXL_NUMAINFO_INVALID_ENTRY)
             [0..<length numa_info])\<rparr>"
proof -
  from assms obtain numa_info where ni: "numainfo e = Some numa_info" "numa_info \<noteq> []"
    by (auto simp: libxlCapsInitNuma_def numa_cleanup_def split: option.splits if_splits)
  from assms ni obtain topo where tp: "cputopology e = Some topo" "topo \<noteq> []"
    by (auto simp: libxlCapsInitNuma_def numa_cleanup_def split: option.splits if_splits)
  let ?ps = "zip [0..<length topo] topo"
  from assms ni tp obtain m2 cs m3 where
    c: "collect_cpus (length topo) ?ps (replicate (length numa_info) []) m2 = Inr (cs, m3)"
    and a: "add_cells (zip [0..<length numa_info] numa_info) (populate_siblings ?ps cs)
              (s\<lparr>heap_mem := m3\<rparr>) = (Inr u, s')"
    by (auto simp: libxlCapsInitNuma_def numa_cleanup_def Let_def
        split: option.splits if_splits sum.splits prod.splits)
  have bnd: "\<forall>i < length topo. valid_core (topo ! i) \<longrightarrow> node_index (topo ! i) < length numa_info"
    using collect_cpus_result [OF c] by (auto simp: in_set_zip_upt Ball_def)
  have f: "filter valid_size (zip [0..<length numa_info] numa_info) =
      map (\<lambda>i. (i, numa_info ! i))
        (filter (\<lambda>i. size' (numa_info ! i) \<noteq> ucast LIBXL_NUMAINFO_INVALID_ENTRY)
           [0..<length numa_info])"
    using filter_zip_upt [of "\<lambda>i t. size' t \<noteq> ucast LIBXL_NUMAINFO_INVALID_ENTRY" numa_info]
    by (simp add: valid_size_def [abs_def])
  have "map (new_cell (populate_siblings ?ps cs)) (filter valid_size (zip [0..<length numa_info] numa_info))
      = map (\<lambda>i. \<lparr>num = i, cell_mem = size' (numa_info ! i) div 1024,
                  cell_cpus = node_cpus topo i\<rparr>)
          (filter (\<lambda>i. size' (numa_info ! i) \<noteq> ucast LIBXL_NUMAINFO_INVALID_ENTRY)
             [0..<length numa_info])"
    unfolding f using numa_passes_result [OF c]
    by (auto simp: new_cell_def)
  with add_cells_result [OF a] have
    "caps s' = (caps s)\<lparr>numa_cells := numa_cells (caps s) @
        map (\<lambda>i. \<lparr>num = i, cell_mem = size' (numa_info ! i) div 1024,
                  cell_cpus = node_cpus topo i\<rparr>)
          (filter (\<lambda>i. size' (numa_info ! i) \<noteq> ucast LIBXL_NUMAINFO_INVALID_ENTRY)
             [0..<length numa_info])\<rparr>"
    by simp
  with ni tp bnd show ?thesis using that by blast
qed

lemma in_node_cpus:
  "a \<in> set (node_cpus topo nd) \<longleftrightarrow>
   (\<exists>i < length topo. valid_core (topo ! i) \<and> node_index (topo ! i) = nd \<and> a = final_cpu topo i)"
  by (auto simp: node_cpus_def)

lemma final_cpu_sel [simp]:
  "cpu_id (final_cpu topo i) = i"
  "socket_id (final_cpu topo i) = socket (topo ! i)"
  "core_id (final_cpu topo i) = core (topo ! i)"
  "bm_size (siblings (final_cpu topo i)) = length topo"
  "k \<in> bm_bits (siblings (final_cpu topo i)) \<longleftrightarrow>
     k < length topo \<and> valid_core (topo ! k) \<and> node_index (topo ! k) = node_index (topo ! i) \<and>
     socket (topo ! k) = socket (topo ! i) \<and> core (topo ! k) = core (topo ! i)"
  by (simp_all add: final_cpu_def)

lemma numa_cells_fresh:
  assumes "numainfo e = Some numa_info" "cputopology e = Some topo"
    "numa_cells (caps s) = []" "libxlCapsInitNuma e s = (Inr u, s')"
  shows "numa_cells (caps s') =
        map (\<lambda>i. \<lparr>num = i, cell_mem = size' (numa_info ! i) div 1024,
                  cell_cpus = node_cpus topo i\<rparr>)
          (filter (\<lambda>i. size' (numa_info ! i) \<noteq> ucast LIBXL_NUMAINFO_INVALID_ENTRY)
             [0..<length numa_info])"
    and "\<forall>i < length topo. valid_core (topo ! i) \<longrightarrow> node_index (topo ! i) < length numa_info"
proof -
  from assms(4) obtain ni tp where
    r: "numainfo e = Some ni" "cputopology e = Some tp"
      "\<forall>i < length tp. valid_core (tp ! i) \<longrightarrow> node_index (tp ! i) < length ni"
      "caps s' = (caps s)\<lparr>numa_cells := numa_cells (caps s) @
        map (\<lambda>i. \<lparr>num = i, cell_mem = size' (ni ! i) div 1024, cell_cpus = node_cpus tp i\<rparr>)
          (filter (\<lambda>i. size' (ni ! i) \<noteq> ucast LIBXL_NUMAINFO_INVALID_ENTRY)
             [0..<length ni])\<rparr>"
    by (rule libxlCapsInitNuma_result)
  from r(1,2) assms(1,2) have eq: "ni = numa_info" "tp = topo" by simp_all
  from r(4) assms(3) show "numa_cells (caps s') =
        map (\<lambda>i. \<lparr>num = i, cell_mem = size' (numa_info ! i) div 1024,
                  cell_cpus = node_cpus topo i\<rparr>)
          (filter (\<lambda>i. size' (numa_info ! i) \<noteq> ucast LIBXL_NUMAINFO_INVALID_ENTRY)
             [0..<length numa_info])"
    unfolding eq by simp
  from r(3) show "\<forall>i < length topo. valid_core (topo ! i) \<longrightarrow>
      node_index (topo ! i) < length numa_info"
    unfolding eq .
qed

section \<open>Properties of the steps as updates of the capability object\<close>

lemma updates_ok: "updates (\<lambda>c. c) ok"
  by (simp add: updates_def ok_def)

lemma updates_api_call: "updates F (api_call F)"
  by (auto simp: updates_def dest: api_call_result)

lemma updates_seq: "updates F f \<Longrightarrow> updates G g \<Longrightarrow> updates (\<lambda>c. G (F c)) (seq f g)"
  by (auto simp: updates_def seq_def split: prod.splits sum.splits)

lemma updates_when: "updates F f \<Longrightarrow> updates (\<lambda>c. if b then F c else c) (when_then b f)"
  by (auto simp: updates_def when_then_def ok_def)

lemma updates_D: "updates F f \<Longrightarrow> f s = (Inr u, s') \<Longrightarrow> caps s' = F (caps s)"
  by (auto simp: updates_def)

lemma updates_eq: "updates F f \<Longrightarrow> (\<And>c. F c = G c) \<Longrightarrow> updates G f"
  by (simp add: updates_def)

lemma emit_guest_updates:
  "updates (\<lambda>c. c\<lparr>guests := guests c @ [guest_of e g]\<rparr>) (emit_guest e g)"
  unfolding emit_guest_def Let_def virCapabilitiesAllocMachines_def virCapabilitiesAddGuest_def
    virCapabilitiesAddGuestDomain_def virCapabilitiesAddGuestFeature_def
  by (rule updates_eq, (rule updates_seq updates_when updates_api_call)+)
     (simp add: guest_of_def feature_def)

lemma emit_guests_updates:
  "updates (\<lambda>c. c\<lparr>guests := guests c @ map (guest_of e) gs\<rparr>) (emit_guests e gs)"
proof (induction gs)
  case Nil
  show ?case unfolding emit_guests.simps by (rule updates_eq [OF updates_ok]) simp
next
  case (Cons g gs)
  show ?case
    unfolding emit_guests.simps
    by (rule updates_eq [OF updates_seq [OF emit_guest_updates Cons]]) simp
qed

lemma libxlCapsInitGuests_result:
  assumes "libxlCapsInitGuests e s = (Inr u, s')"
  obtains v str where "version_info e = Some v" "capabilities v = Some str"
    "caps s' = (caps s)\<lparr>guests := guests (caps s) @
                 map (guest_of e) (retained (parse_capabilities str))\<rparr>"
proof -
  from assms obtain v str where v: "version_info e = Some v" "capabilities v = Some str"
    by (auto simp: libxlCapsInitGuests_def split: option.splits)
  with assms have "emit_guests e (retained (parse_capabilities str)) s = (Inr u, s')"
    by (simp add: libxlCapsInitGuests_def regcomp_XEN_CAP_REGEX_def retained_def split_beta)
  from updates_D [OF emit_guests_updates this] v show ?thesis using that by blast
qed

lemma libxlCapsInitHost_result:
  assumes "libxlCapsInitHost e s = (Inr u, s')"
  obtains phy where "physinfo e = Some phy"
    "caps s' = (caps s)\<lparr>host_features := host_features (caps s) @
                   (if bit (hw_cap phy 0) 6 then [''pae''] else []),
                 netprefix := Some (LIBXL_GENERATED_PREFIX_XEN e)\<rparr>"
proof -
  from assms obtain phy where p: "physinfo e = Some phy"
    by (auto simp: libxlCapsInitHost_def split: option.splits)
  have "updates (\<lambda>c. c\<lparr>host_features := host_features c @
                   (if bit (hw_cap phy 0) 6 then [''pae''] else []),
                 netprefix := Some (LIBXL_GENERATED_PREFIX_XEN e)\<rparr>)
          (seq (when_then (hw_cap phy 0 AND LIBXL_X86_FEATURE_PAE_MASK \<noteq> 0)
                  (virCapabilitiesAddHostFeature ''pae''))
               (virCapabilitiesSetNetPrefix (LIBXL_GENERATED_PREFIX_XEN e)))"
    unfolding virCapabilitiesAddHostFeature_def virCapabilitiesSetNetPrefix_def
    by (rule updates_eq, (rule updates_seq updates_when updates_api_call)+)
       (simp add: pae_mask_bit)
  from updates_D [OF this] assms p
  have "caps s' = (caps s)\<lparr>host_features := host_features (caps s) @
                   (if bit (hw_cap phy 0) 6 then [''pae''] else []),
                 netprefix := Some (LIBXL_GENERATED_PREFIX_XEN e)\<rparr>"
    by (simp add: libxlCapsInitHost_def Let_def)
  with p show ?thesis using that by blast
qed

section \<open>Missing, empty and unmatched capability strings\<close>

lemma match_here_arch:
  assumes "match_here s = Some (o2, o3)"
  shows "filter (STRPREFIX (drop o2 s)) regex_archs \<noteq> []"
proof -
  let ?n1 = "length (takeWhile is_digit (drop 4 s))"
  let ?n2 = "length (takeWhile is_digit (drop (5 + ?n1) s))"
  from assms have "o2 = 6 + ?n1 + ?n2"
    unfolding match_here_def Let_def by (simp split: if_splits list.splits)
  with match_here_SomeD [OF assms] show ?thesis by simp
qed

lemma regexec_from_arch:
  "regexec_from k s = Some (so1, so2, so3) \<Longrightarrow>
   k \<le> so2 \<and> filter (STRPREFIX (drop (so2 - k) s)) regex_archs \<noteq> []"
proof (induction s arbitrary: k)
  case Nil
  then show ?case by simp
next
  case (Cons c cs)
  show ?case
  proof (cases "match_here (c # cs)")
    case None
    with Cons.prems have r: "regexec_from (Suc k) cs = Some (so1, so2, so3)" by simp
    from Cons.IH [OF r] have le: "Suc k \<le> so2"
      and f: "filter (STRPREFIX (drop (so2 - Suc k) cs)) regex_archs \<noteq> []" by simp_all
    from le have "so2 - k = Suc (so2 - Suc k)" by simp
    with f le show ?thesis by simp
  next
    case (Some r)
    obtain o2 o3 where r: "r = (o2, o3)" by (cases r)
    with Some Cons.prems have "so2 = k + o2" by simp
    with match_here_arch [OF Some [unfolded r]] show ?thesis by simp
  qed
qed

lemma decode_token_match:
  assumes "regexec t \<noteq> None"
  shows "decode_token t \<noteq> None"
proof -
  from assms obtain so1 so2 so3 where r: "regexec t = Some (so1, so2, so3)" by auto
  from regexec_from_arch [OF r [unfolded regexec_def]]
  have "filter (STRPREFIX (drop so2 t)) regex_archs \<noteq> []" by simp
  then have "\<exists>a \<in> set regex_archs. STRPREFIX (drop so2 t) a"
    unfolding filter_empty_conv by blast
  then have "STRPREFIX (drop so2 t) ''x86_32'' \<or> STRPREFIX (drop so2 t) ''x86_64'' \<or>
     STRPREFIX (drop so2 t) ''ia64'' \<or> STRPREFIX (drop so2 t) ''powerpc64'' \<or>
     STRPREFIX (drop so2 t) ''armv7l'' \<or> STRPREFIX (drop so2 t) ''aarch64''"
    by (auto simp: regex_archs_def)
  then show ?thesis unfolding decode_token_def r by (auto simp: Let_def)
qed

lemma parse_capabilities_occurs:
  assumes "t \<in> set (strtok_r_all str)" "pattern_occurs t"
  shows "retained (parse_capabilities str) \<noteq> []"
proof -
  from assms(2) have "regexec t \<noteq> None" by (simp only: regexec_iff)
  then obtain d where d: "decode_token t = Some d" using decode_token_match by blast
  have inv: "loop_inv (parse_capabilities str)"
    unfolding parse_capabilities_def by (rule token_loop_inv [OF loop_inv_init])
  have "covers (parse_capabilities str) d"
    unfolding parse_capabilities_def by (rule token_loop_covers [OF loop_inv_init assms(1) d])
  then have "0 < snd (parse_capabilities str)" by (auto simp: covers_def)
  moreover from inv have "length (retained (parse_capabilities str)) = snd (parse_capabilities str)"
    by (simp add: loop_inv_def retained_def)
  ultimately show ?thesis by auto
qed

text \<open>
  Claim C5, with the match as the code makes it. When the version information has no
  capability string (\<^verbatim>\<open>NULL\<close>), the parser fails with the error "Failed to get
  capabilities from libxenlight" and leaves the state as it was. When the string is
  present and empty, or a word of the grammar occurs inside none of its tokens, the
  parser succeeds and adds no guest: the state is unchanged. When a word of the
  grammar occurs inside some token, not necessarily as the whole token, a run that
  succeeds has added at least one guest.
\<close>

theorem guests_none_iff_no_occurrence:
  "libxlCapsInitGuests (e\<lparr>version_info := Some \<lparr>capabilities = None\<rparr>\<rparr>) s
     = (Inl CapabilitiesMissingError, s) \<and>
   libxlCapsInitGuests (e\<lparr>version_info := Some \<lparr>capabilities = Some []\<rparr>\<rparr>) s = (Inr (), s) \<and>
   ((\<forall>t \<in> set (strtok_r_all str). \<not> pattern_occurs t) \<longrightarrow>
    libxlCapsInitGuests (e\<lparr>version_info := Some \<lparr>capabilities = Some str\<rparr>\<rparr>) s = (Inr (), s)) \<and>
   ((\<exists>t \<in> set (strtok_r_all str). pattern_occurs t) \<longrightarrow>
    libxlCapsInitGuests (e\<lparr>version_info := Some \<lparr>capabilities = Some str\<rparr>\<rparr>) s = (Inr (), s') \<longrightarrow>
    length (guests (caps s)) < length (guests (caps s')))"
proof -
  have nm: "parse_capabilities str' = (replicate ARRAY_CARDINALITY_guest_archs zero_guest_arch, 0)"
    if "\<forall>t \<in> set (strtok_r_all str'). \<not> pattern_occurs t" for str'
  proof -
    from that have "\<forall>t \<in> set (strtok_r_all str'). regexec t = None"
      using regexec_iff by blast
    then have "\<forall>t \<in> set (strtok_r_all str'). decode_token t = None"
      by (simp add: decode_token_no_match)
    then show ?thesis unfolding parse_capabilities_def by (rule token_loop_no_match)
  qed
  have r: "libxlCapsInitGuests (e\<lparr>version_info := Some \<lparr>capabilities = Some str'\<rparr>\<rparr>) s = (Inr (), s)"
    if "\<forall>t \<in> set (strtok_r_all str'). \<not> pattern_occurs t" for str'
    by (simp add: libxlCapsInitGuests_def regcomp_XEN_CAP_REGEX_def nm [OF that] ok_def)
  have "\<forall>t \<in> set (strtok_r_all []). \<not> pattern_occurs t" by (simp add: strtok_r_all_def)
  note empty = r [OF this]
  have some: "length (guests (caps s)) < length (guests (caps s'))"
    if occ: "\<exists>t \<in> set (strtok_r_all str). pattern_occurs t"
      and run: "libxlCapsInitGuests (e\<lparr>version_info := Some \<lparr>capabilities = Some str\<rparr>\<rparr>) s = (Inr (), s')"
  proof -
    from occ have ne: "retained (parse_capabilities str) \<noteq> []"
      using parse_capabilities_occurs by blast
    from run obtain v str' where
      v: "version_info (e\<lparr>version_info := Some \<lparr>capabilities = Some str\<rparr>\<rparr>) = Some v"
        "capabilities v = Some str'" and
      c: "caps s' = (caps s)\<lparr>guests := guests (caps s) @
            map (guest_of (e\<lparr>version_info := Some \<lparr>capabilities = Some str\<rparr>\<rparr>))
              (retained (parse_capabilities str'))\<rparr>"
      by (rule libxlCapsInitGuests_result)
    from v have "str' = str" by auto
    with c ne show ?thesis by simp
  qed
  from r empty some show ?thesis by (simp add: libxlCapsInitGuests_def)
qed

theorem guests_none_iff_no_occurrence_witness:
  "libxlCapsInitGuests (example_env\<lparr>version_info := Some \<lparr>capabilities = None\<rparr>\<rparr>) example_st
     = (Inl CapabilitiesMissingError, example_st) \<and>
   libxlCapsInitGuests
     (example_env\<lparr>version_info := Some \<lparr>capabilities = Some ''xen-3.0 hvm-x86_64  x86_32p''\<rparr>\<rparr>)
     example_st = (Inr (), example_st) \<and>
   pattern_occurs ''xhvm-3.0-x86_32pae'' \<and>
   fst (libxlCapsInitGuests
     (example_env\<lparr>version_info := Some \<lparr>capabilities = Some ''abc xhvm-3.0-x86_32pae''\<rparr>\<rparr>)
     example_st) = Inr () \<and>
   length (guests (caps example_st)) < length (guests (caps (snd (libxlCapsInitGuests
     (example_env\<lparr>version_info := Some \<lparr>capabilities = Some ''abc xhvm-3.0-x86_32pae''\<rparr>\<rparr>)
     example_st))))"
proof -
  have "\<forall>t \<in> set (strtok_r_all ''xen-3.0 hvm-x86_64  x86_32p''). regexec t = None"
    by code_simp
  then have no: "\<forall>t \<in> set (strtok_r_all ''xen-3.0 hvm-x86_64  x86_32p''). \<not> pattern_occurs t"
    using regexec_iff by blast
  have "regexec ''xhvm-3.0-x86_32pae'' \<noteq> None" by code_simp
  then have occ: "pattern_occurs ''xhvm-3.0-x86_32pae''" by (simp only: regexec_iff)
  have "''xhvm-3.0-x86_32pae'' \<in> set (strtok_r_all ''abc xhvm-3.0-x86_32pae'')" by code_simp
  with occ have yes: "\<exists>t \<in> set (strtok_r_all ''abc xhvm-3.0-x86_32pae''). pattern_occurs t"
    by blast
  have ok: "fst (libxlCapsInitGuests
     (example_env\<lparr>version_info := Some \<lparr>capabilities = Some ''abc xhvm-3.0-x86_32pae''\<rparr>\<rparr>)
     example_st) = Inr ()"
    unfolding example_st_def by (rule libxlCapsInitGuests_Unlimited)
  then have run: "libxlCapsInitGuests
     (example_env\<lparr>version_info := Some \<lparr>capabilities = Some ''abc xhvm-3.0-x86_32pae''\<rparr>\<rparr>)
     example_st = (Inr (), snd (libxlCapsInitGuests
     (example_env\<lparr>version_info := Some \<lparr>capabilities = Some ''abc xhvm-3.0-x86_32pae''\<rparr>\<rparr>)
     example_st))"
    by (metis prod.collapse)
  from guests_none_iff_no_occurrence [where e = example_env and s = example_st
      and str = "''xen-3.0 hvm-x86_64  x86_32p''"] no
  have a: "libxlCapsInitGuests (example_env\<lparr>version_info := Some \<lparr>capabilities = None\<rparr>\<rparr>) example_st
     = (Inl CapabilitiesMissingError, example_st)"
    "libxlCapsInitGuests
     (example_env\<lparr>version_info := Some \<lparr>capabilities = Some ''xen-3.0 hvm-x86_64  x86_32p''\<rparr>\<rparr>)
     example_st = (Inr (), example_st)"
    by blast+
  from guests_none_iff_no_occurrence [where e = example_env and s = example_st
      and str = "''abc xhvm-3.0-x86_32pae''", THEN conjunct2, THEN conjunct2, THEN conjunct2,
      THEN mp, OF yes, THEN mp, OF run]
  have b: "length (guests (caps example_st)) < length (guests (caps (snd (libxlCapsInitGuests
     (example_env\<lparr>version_info := Some \<lparr>capabilities = Some ''abc xhvm-3.0-x86_32pae''\<rparr>\<rparr>)
     example_st))))" .
  from a occ ok b show ?thesis by blast
qed

text \<open>
  Claim C5 as it is worded, refuted: the token \<^verbatim>\<open>junkxen-3.0-x86_64junk\<close> is not a
  word of the grammar, and the string that consists of it contains no other token,
  yet the parser adds a guest, the paravirtualised x86_64 one.
\<close>

theorem embedded_word_emits_guest:
  "strtok_r_all ''junkxen-3.0-x86_64junk'' = [''junkxen-3.0-x86_64junk''] \<and>
   \<not> xen_cap_word ''junkxen-3.0-x86_64junk'' \<and>
   libxlCapsInitGuests
     (example_env\<lparr>version_info := Some \<lparr>capabilities = Some ''junkxen-3.0-x86_64junk''\<rparr>\<rparr>)
     example_st =
   (Inr (), example_st\<lparr>caps := (caps example_st)\<lparr>guests := guests (caps example_st) @
       [\<lparr>ostype = VIR_DOMAIN_OSTYPE_XEN, guest_arch_of = VIR_ARCH_X86_64,
         emulator = ''/usr/lib/xen/bin/qemu-system-i386'', loader = None,
         machines = [''xenpv''], domains = [VIR_DOMAIN_VIRT_XEN], features = []\<rparr>]\<rparr>\<rparr>)"
proof -
  have t: "strtok_r_all ''junkxen-3.0-x86_64junk'' = [''junkxen-3.0-x86_64junk'']"
    by code_simp
  have "match_here ''junkxen-3.0-x86_64junk'' = None" by code_simp
  with match_here_iff [of "''junkxen-3.0-x86_64junk''"]
  have "\<not> (\<exists>w r. ''junkxen-3.0-x86_64junk'' = w @ r \<and> xen_cap_word w)" by simp
  then have w: "\<not> xen_cap_word ''junkxen-3.0-x86_64junk''"
    by (metis append_Nil2)
  have g: "libxlCapsInitGuests
     (example_env\<lparr>version_info := Some \<lparr>capabilities = Some ''junkxen-3.0-x86_64junk''\<rparr>\<rparr>)
     example_st =
   (Inr (), example_st\<lparr>caps := (caps example_st)\<lparr>guests := guests (caps example_st) @
       [\<lparr>ostype = VIR_DOMAIN_OSTYPE_XEN, guest_arch_of = VIR_ARCH_X86_64,
         emulator = ''/usr/lib/xen/bin/qemu-system-i386'', loader = None,
         machines = [''xenpv''], domains = [VIR_DOMAIN_VIRT_XEN], features = []\<rparr>]\<rparr>\<rparr>)"
    by code_simp
  from t w g show ?thesis by blast
qed

section \<open>Properties of the Emulator Classifier\<close>

lemma strstr_iff: "strstr hay needle \<longleftrightarrow> (\<exists>u v. hay = u @ needle @ v)"
proof (induction hay)
  case Nil
  then show ?case by auto
next
  case (Cons c cs)
  have "STRPREFIX (c # cs) needle \<longleftrightarrow> (\<exists>v. c # cs = needle @ v)"
    unfolding STRPREFIX_def
    by (metis append_eq_conv_conj append_take_drop_id)
  moreover have "(\<exists>u v. c # cs = u @ needle @ v) \<longleftrightarrow>
      (\<exists>v. c # cs = needle @ v) \<or> (\<exists>u v. cs = u @ needle @ v)"
  proof
    assume "\<exists>u v. c # cs = u @ needle @ v"
    then obtain u v where uv: "c # cs = u @ needle @ v" by blast
    show "(\<exists>v. c # cs = needle @ v) \<or> (\<exists>u v. cs = u @ needle @ v)"
    proof (cases u)
      case Nil
      with uv show ?thesis by auto
    next
      case (Cons a u')
      with uv have "cs = u' @ needle @ v" by simp
      then show ?thesis by blast
    qed
  next
    assume "(\<exists>v. c # cs = needle @ v) \<or> (\<exists>u v. cs = u @ needle @ v)"
    then show "\<exists>u v. c # cs = u @ needle @ v"
    proof
      assume "\<exists>v. c # cs = needle @ v"
      then obtain v where "c # cs = [] @ needle @ v" by auto
      then show ?thesis by blast
    next
      assume "\<exists>u v. cs = u @ needle @ v"
      then obtain u v where "c # cs = (c # u) @ needle @ v" by auto
      then show ?thesis by blast
    qed
  qed
  ultimately show ?case using Cons.IH by simp
qed

section \<open>The claims about the host probe, the topology, the assembler and the classifier\<close>

text \<open>
  Claim C8. Whenever the probe succeeds on a physical-info result, it has appended
  the host feature "pae" exactly when bit 6 (mask 0x40) of the first capability word
  is set, and nothing else; on the fresh capability object "pae" is therefore among
  the host features if and only if the bit is set. When the bit is clear "pae" is
  absent whatever the outcome, and with an allocator that does not fail the probe
  succeeds.
\<close>

theorem host_pae_iff_bit6:
  "(libxlCapsInitHost (e\<lparr>physinfo := Some phy\<rparr>) s = (Inr (), s') \<longrightarrow>
      host_features (caps s') =
        host_features (caps s) @ (if bit (hw_cap phy 0) 6 then [''pae''] else [])) \<and>
   (libxlCapsInitHost (e\<lparr>physinfo := Some phy\<rparr>)
        \<lparr>caps = virCapabilitiesNew a off lv, heap_mem = m\<rparr> = (Inr (), s') \<longrightarrow>
      (''pae'' \<in> set (host_features (caps s')) \<longleftrightarrow> bit (hw_cap phy 0) 6)) \<and>
   (\<not> bit (hw_cap phy 0) 6 \<longrightarrow>
      ''pae'' \<notin> set (host_features (caps (snd (libxlCapsInitHost (e\<lparr>physinfo := Some phy\<rparr>)
        \<lparr>caps = virCapabilitiesNew a off lv, heap_mem = m\<rparr>))))) \<and>
   fst (libxlCapsInitHost (e\<lparr>physinfo := Some phy\<rparr>)
        \<lparr>caps = virCapabilitiesNew a off lv, heap_mem = Unlimited\<rparr>) = Inr ()"
proof -
  have p: "physinfo (e\<lparr>physinfo := Some phy\<rparr>) = Some phy" by simp
  show ?thesis
    using libxlCapsInitHost_features [OF p] libxlCapsInitHost_no_pae [OF p]
      libxlCapsInitHost_Unlimited [OF p]
    by (auto simp: virCapabilitiesNew_def)
qed

theorem host_pae_iff_bit6_witness:
  "libxlCapsInitHost example_env example_st
     = (Inr (), snd (libxlCapsInitHost example_env example_st)) \<and>
   bit (0x1C3 :: 32 word) 6 \<and>
   ''pae'' \<in> set (host_features (caps (snd (libxlCapsInitHost example_env example_st))))"
proof -
  let ?phy = "\<lparr>hw_cap = (\<lambda>i. if i = 0 then 0x1C3 else 0 :: 32 word)\<rparr>"
  have e: "example_env\<lparr>physinfo := Some ?phy\<rparr> = example_env"
    by (simp add: example_env_def)
  have st: "example_st = \<lparr>caps = virCapabilitiesNew VIR_ARCH_X86_64 True True, heap_mem = Unlimited\<rparr>"
    by (simp add: example_st_def)
  have "fst (libxlCapsInitHost example_env example_st) = Inr ()"
    by code_simp
  then have run: "libxlCapsInitHost example_env example_st
     = (Inr (), snd (libxlCapsInitHost example_env example_st))"
    by (metis prod.collapse)
  have b: "bit (0x1C3 :: 32 word) 6" by code_simp
  from host_pae_iff_bit6 [where e = example_env and phy = ?phy and s = example_st
      and s' = "snd (libxlCapsInitHost example_env example_st)" and a = VIR_ARCH_X86_64
      and off = True and lv = True and m = Unlimited]
    run b
  show ?thesis unfolding e st [symmetric] by simp
qed

text \<open>
  Claim C4. When the builder succeeds on a capability object without cells, the cells
  it has added are, in order, those of the node indices whose reported size is not
  the sentinel; each cell's memory is the reported size divided by 1024; a CPU
  index occurs in some cell exactly when the CPU has a valid core and the size of
  its node is not the sentinel, so no CPU of a node with an invalid size is
  emitted; and every CPU of a cell has the cell's number as its node.
\<close>

theorem numa_cells_valid_nodes:
  assumes "numainfo e = Some numa_info" "cputopology e = Some topo"
    "numa_cells (caps s) = []" "libxlCapsInitNuma e s = (Inr (), s')"
  shows "map num (numa_cells (caps s')) =
           filter (\<lambda>i. size' (numa_info ! i) \<noteq> ucast LIBXL_NUMAINFO_INVALID_ENTRY)
             [0..<length numa_info] \<and>
         (\<forall>c \<in> set (numa_cells (caps s')). cell_mem c = size' (numa_info ! num c) div 1024) \<and>
         (\<forall>i. (\<exists>c \<in> set (numa_cells (caps s')). i \<in> cpu_id ` set (cell_cpus c)) \<longleftrightarrow>
              i < length topo \<and> valid_core (topo ! i) \<and>
              size' (numa_info ! node_index (topo ! i)) \<noteq> ucast LIBXL_NUMAINFO_INVALID_ENTRY) \<and>
         (\<forall>c \<in> set (numa_cells (caps s')). \<forall>a \<in> set (cell_cpus c).
              node_index (topo ! cpu_id a) = num c)"
proof -
  note r = numa_cells_fresh [OF assms]
  have 1: "map num (numa_cells (caps s')) =
           filter (\<lambda>i. size' (numa_info ! i) \<noteq> ucast LIBXL_NUMAINFO_INVALID_ENTRY)
             [0..<length numa_info]"
    unfolding r(1) by (simp add: o_def)
  have 2: "\<forall>c \<in> set (numa_cells (caps s')). cell_mem c = size' (numa_info ! num c) div 1024"
    unfolding r(1) by auto
  have 4: "\<forall>c \<in> set (numa_cells (caps s')). \<forall>a \<in> set (cell_cpus c).
              node_index (topo ! cpu_id a) = num c"
    unfolding r(1) by (auto simp: in_node_cpus)
  have 3: "(\<exists>c \<in> set (numa_cells (caps s')). i \<in> cpu_id ` set (cell_cpus c)) \<longleftrightarrow>
              i < length topo \<and> valid_core (topo ! i) \<and>
              size' (numa_info ! node_index (topo ! i)) \<noteq> ucast LIBXL_NUMAINFO_INVALID_ENTRY" for i
  proof
    assume "\<exists>c \<in> set (numa_cells (caps s')). i \<in> cpu_id ` set (cell_cpus c)"
    then show "i < length topo \<and> valid_core (topo ! i) \<and>
              size' (numa_info ! node_index (topo ! i)) \<noteq> ucast LIBXL_NUMAINFO_INVALID_ENTRY"
      unfolding r(1) by (auto simp: in_node_cpus)
  next
    assume a: "i < length topo \<and> valid_core (topo ! i) \<and>
              size' (numa_info ! node_index (topo ! i)) \<noteq> ucast LIBXL_NUMAINFO_INVALID_ENTRY"
    with r(2) have n: "node_index (topo ! i) < length numa_info" by simp
    let ?c = "\<lparr>num = node_index (topo ! i),
               cell_mem = size' (numa_info ! node_index (topo ! i)) div 1024,
               cell_cpus = node_cpus topo (node_index (topo ! i))\<rparr>"
    have "?c \<in> set (numa_cells (caps s'))"
      unfolding r(1) using a n by (auto simp: image_iff)
    moreover have "final_cpu topo i \<in> set (cell_cpus ?c)"
      using a by (auto simp: in_node_cpus)
    then have "i \<in> cpu_id ` set (cell_cpus ?c)" by (metis final_cpu_sel(1) image_eqI)
    ultimately show "\<exists>c \<in> set (numa_cells (caps s')). i \<in> cpu_id ` set (cell_cpus c)" by blast
  qed
  from 1 2 3 4 show ?thesis by blast
qed

theorem numa_cells_valid_nodes_witness:
  "libxlCapsInitNuma example_env example_st
     = (Inr (), snd (libxlCapsInitNuma example_env example_st)) \<and>
   map num (numa_cells (caps (snd (libxlCapsInitNuma example_env example_st)))) = [0, 2] \<and>
   map cell_mem (numa_cells (caps (snd (libxlCapsInitNuma example_env example_st)))) = [4, 2000]"
proof -
  let ?ni = "[\<lparr>size' = 4096\<rparr>, \<lparr>size' = 0xFFFFFFFF\<rparr>, \<lparr>size' = 2048000 :: 64 word\<rparr>]"
  let ?tp = "[\<lparr>core = 0, socket = 0, node = 0\<rparr>, \<lparr>core = 0, socket = 0, node = 0\<rparr>,
         \<lparr>core = 1, socket = 0, node = 2\<rparr>, \<lparr>core = 0xFFFFFFFF, socket = 0, node = 7\<rparr>,
         \<lparr>core = 1, socket = 0, node = 1\<rparr>, \<lparr>core = 1, socket = 1, node = 2 :: 32 word\<rparr>]"
  have ni: "numainfo example_env = Some ?ni" by (simp add: example_env_def)
  have tp: "cputopology example_env = Some ?tp" by (simp add: example_env_def)
  have c0: "numa_cells (caps example_st) = []"
    by (simp add: example_st_def virCapabilitiesNew_def)
  have "fst (libxlCapsInitNuma example_env example_st) = Inr ()" by code_simp
  then have run: "libxlCapsInitNuma example_env example_st
     = (Inr (), snd (libxlCapsInitNuma example_env example_st))"
    by (metis prod.collapse)
  have f: "filter (\<lambda>i. size' (?ni ! i) \<noteq> ucast LIBXL_NUMAINFO_INVALID_ENTRY) [0..<length ?ni]
      = [0, 2]"
    by code_simp
  have m: "map cell_mem (numa_cells (caps (snd (libxlCapsInitNuma example_env example_st))))
      = [4, 2000]"
    by code_simp
  from numa_cells_valid_nodes [OF ni tp c0 run] f m run show ?thesis by simp
qed

text \<open>
  Claim C3. When the builder succeeds on a capability object without cells, then for
  any two CPU entries \<open>a\<close> and \<open>b\<close> of the emitted cells: the id of \<open>a\<close> is in the
  siblings of \<open>b\<close> if and only if the id of \<open>b\<close> is in the siblings of \<open>a\<close>;
  when it is, the two are in cells of the same node and have the same socket and
  core; and the siblings of \<open>a\<close> contain the id of \<open>a\<close>.
\<close>

theorem siblings_symmetric:
  assumes "numainfo e = Some numa_info" "cputopology e = Some topo"
    "numa_cells (caps s) = []" "libxlCapsInitNuma e s = (Inr (), s')"
  shows "\<forall>c1 \<in> set (numa_cells (caps s')). \<forall>c2 \<in> set (numa_cells (caps s')).
         \<forall>a \<in> set (cell_cpus c1). \<forall>b \<in> set (cell_cpus c2).
           (cpu_id a \<in> bm_bits (siblings b) \<longleftrightarrow> cpu_id b \<in> bm_bits (siblings a)) \<and>
           (cpu_id a \<in> bm_bits (siblings b) \<longrightarrow>
              num c1 = num c2 \<and> socket_id a = socket_id b \<and> core_id a = core_id b \<and>
              node_index (topo ! cpu_id a) = node_index (topo ! cpu_id b)) \<and>
           cpu_id a \<in> bm_bits (siblings a)"
proof -
  note r = numa_cells_fresh [OF assms]
  show ?thesis unfolding r(1) by (auto simp: in_node_cpus)
qed

theorem siblings_symmetric_witness:
  "libxlCapsInitNuma example_env example_st
     = (Inr (), snd (libxlCapsInitNuma example_env example_st)) \<and>
   cpu_id (cell_cpus (numa_cells (caps (snd (libxlCapsInitNuma example_env example_st))) ! 0) ! 0)
     \<in> bm_bits (siblings
          (cell_cpus (numa_cells (caps (snd (libxlCapsInitNuma example_env example_st))) ! 0) ! 1)) \<and>
   cpu_id (cell_cpus (numa_cells (caps (snd (libxlCapsInitNuma example_env example_st))) ! 0) ! 1)
     \<in> bm_bits (siblings
          (cell_cpus (numa_cells (caps (snd (libxlCapsInitNuma example_env example_st))) ! 0) ! 0))"
proof -
  let ?ni = "[\<lparr>size' = 4096\<rparr>, \<lparr>size' = 0xFFFFFFFF\<rparr>, \<lparr>size' = 2048000 :: 64 word\<rparr>]"
  let ?tp = "[\<lparr>core = 0, socket = 0, node = 0\<rparr>, \<lparr>core = 0, socket = 0, node = 0\<rparr>,
         \<lparr>core = 1, socket = 0, node = 2\<rparr>, \<lparr>core = 0xFFFFFFFF, socket = 0, node = 7\<rparr>,
         \<lparr>core = 1, socket = 0, node = 1\<rparr>, \<lparr>core = 1, socket = 1, node = 2 :: 32 word\<rparr>]"
  let ?s = "snd (libxlCapsInitNuma example_env example_st)"
  let ?c = "numa_cells (caps ?s) ! 0"
  have ni: "numainfo example_env = Some ?ni" by (simp add: example_env_def)
  have tp: "cputopology example_env = Some ?tp" by (simp add: example_env_def)
  have c0: "numa_cells (caps example_st) = []"
    by (simp add: example_st_def virCapabilitiesNew_def)
  have "fst (libxlCapsInitNuma example_env example_st) = Inr ()" by code_simp
  then have run: "libxlCapsInitNuma example_env example_st = (Inr (), ?s)"
    by (metis prod.collapse)
  have "0 < length (numa_cells (caps ?s))" by code_simp
  then have c: "?c \<in> set (numa_cells (caps ?s))" by (rule nth_mem)
  have "0 < length (cell_cpus ?c)" "1 < length (cell_cpus ?c)" by code_simp+
  then have ab: "cell_cpus ?c ! 0 \<in> set (cell_cpus ?c)" "cell_cpus ?c ! 1 \<in> set (cell_cpus ?c)"
    by simp_all
  have one: "cpu_id (cell_cpus ?c ! 0) \<in> bm_bits (siblings (cell_cpus ?c ! 1))"
    by code_simp
  from siblings_symmetric [OF ni tp c0 run] c ab one run show ?thesis by blast
qed

text \<open>
  Claim C6. Let \<open>h\<close>, \<open>n\<close> and \<open>g\<close> be the runs of the host probe, the topology
  builder and the guest parser, each on the state its predecessor leaves, starting
  from the fresh capability object. If any of them fails, the assembler returns
  nothing and no capability object is left allocated: the object is released with
  everything the completed steps had put into it. If all three succeed, the assembler
  returns the object the third step leaves, which is still allocated and carries
  the host features and network prefix of the first step, the cells of the second
  and the guests of the third.
\<close>

theorem assembler_all_or_nothing:
  assumes "virAlloc m = Some m0"
    and "s0 = \<lparr>caps = virCapabilitiesNew (virArchFromHost e)
                  (\<not> LIBXL_HAVE_NO_SUSPEND_RESUME e) (\<not> LIBXL_HAVE_NO_SUSPEND_RESUME e),
               heap_mem = m0\<rparr>"
    and "h = libxlCapsInitHost e s0"
    and "n = libxlCapsInitNuma e (snd h)"
    and "g = libxlCapsInitGuests e (snd n)"
  shows "(isl (fst h) \<or> isl (fst n) \<or> isl (fst g) \<longrightarrow>
            returned (libxlMakeCapabilities e m) = None \<and>
            live (libxlMakeCapabilities e m) = None) \<and>
         (\<not> isl (fst h) \<and> \<not> isl (fst n) \<and> \<not> isl (fst g) \<longrightarrow>
            returned (libxlMakeCapabilities e m) = Some (caps (snd g)) \<and>
            live (libxlMakeCapabilities e m) = Some (caps (snd g)) \<and>
            (\<exists>phy numa_info topo v str.
               physinfo e = Some phy \<and> numainfo e = Some numa_info \<and>
               cputopology e = Some topo \<and> version_info e = Some v \<and>
               capabilities v = Some str \<and>
               caps (snd g) =
                 \<lparr>host_arch = virArchFromHost e,
                  offlineMigrate = \<not> LIBXL_HAVE_NO_SUSPEND_RESUME e,
                  liveMigrate = \<not> LIBXL_HAVE_NO_SUSPEND_RESUME e,
                  host_features = (if bit (hw_cap phy 0) 6 then [''pae''] else []),
                  netprefix = Some (LIBXL_GENERATED_PREFIX_XEN e),
                  numa_cells =
                    map (\<lambda>i. \<lparr>num = i, cell_mem = size' (numa_info ! i) div 1024,
                              cell_cpus = node_cpus topo i\<rparr>)
                      (filter (\<lambda>i. size' (numa_info ! i) \<noteq> ucast LIBXL_NUMAINFO_INVALID_ENTRY)
                         [0..<length numa_info]),
                  guests = map (guest_of e) (retained (parse_capabilities str))\<rparr>))"
proof -
  let ?r = "libxlMakeCapabilities e m"
  have s0eq: "\<lparr>caps = (if LIBXL_HAVE_NO_SUSPEND_RESUME e
             then virCapabilitiesNew (virArchFromHost e) False False
             else virCapabilitiesNew (virArchFromHost e) True True), heap_mem = m0\<rparr> = s0"
    using assms(2) by simp
  obtain a1 s1 where hh: "libxlCapsInitHost e s0 = (a1, s1)" by force
  obtain a2 s2 where nn: "libxlCapsInitNuma e s1 = (a2, s2)" by force
  obtain a3 s3 where gg: "libxlCapsInitGuests e s2 = (a3, s3)" by force
  from hh nn gg assms(3-5) have hng: "h = (a1, s1)" "n = (a2, s2)" "g = (a3, s3)" by simp_all
  have unfold: "?r =
      (case a1 of
         Inl err \<Rightarrow> \<lparr>returned = None, live = virObjectUnref (caps s1), mem_after = heap_mem s1\<rparr>
       | Inr _ \<Rightarrow>
           (case a2 of
              Inl err \<Rightarrow>
                \<lparr>returned = None, live = virObjectUnref (caps s2), mem_after = heap_mem s2\<rparr>
            | Inr _ \<Rightarrow>
                (case a3 of
                   Inl err \<Rightarrow>
                     \<lparr>returned = None, live = virObjectUnref (caps s3), mem_after = heap_mem s3\<rparr>
                 | Inr _ \<Rightarrow>
                     \<lparr>returned = Some (caps s3), live = Some (caps s3), mem_after = heap_mem s3\<rparr>)))"
    unfolding libxlMakeCapabilities_def Let_def assms(1) option.case s0eq hh prod.case
    by (cases a1; cases a2; cases a3) (simp_all add: nn gg)
  have fail: "returned ?r = None \<and> live ?r = None" if "isl (fst h) \<or> isl (fst n) \<or> isl (fst g)"
    unfolding unfold using that hng
    by (cases a1; cases a2; cases a3) (simp_all add: virObjectUnref_def)
  have good: "returned ?r = Some (caps (snd g)) \<and> live ?r = Some (caps (snd g))"
    if "\<not> isl (fst h) \<and> \<not> isl (fst n) \<and> \<not> isl (fst g)"
    unfolding unfold using that hng
    by (cases a1; cases a2; cases a3) simp_all
  have pop: "\<exists>phy numa_info topo v str.
               physinfo e = Some phy \<and> numainfo e = Some numa_info \<and>
               cputopology e = Some topo \<and> version_info e = Some v \<and>
               capabilities v = Some str \<and>
               caps (snd g) =
                 \<lparr>host_arch = virArchFromHost e,
                  offlineMigrate = \<not> LIBXL_HAVE_NO_SUSPEND_RESUME e,
                  liveMigrate = \<not> LIBXL_HAVE_NO_SUSPEND_RESUME e,
                  host_features = (if bit (hw_cap phy 0) 6 then [''pae''] else []),
                  netprefix = Some (LIBXL_GENERATED_PREFIX_XEN e),
                  numa_cells =
                    map (\<lambda>i. \<lparr>num = i, cell_mem = size' (numa_info ! i) div 1024,
                              cell_cpus = node_cpus topo i\<rparr>)
                      (filter (\<lambda>i. size' (numa_info ! i) \<noteq> ucast LIBXL_NUMAINFO_INVALID_ENTRY)
                         [0..<length numa_info]),
                  guests = map (guest_of e) (retained (parse_capabilities str))\<rparr>"
    if ok3: "\<not> isl (fst h) \<and> \<not> isl (fst n) \<and> \<not> isl (fst g)"
  proof -
    from ok3 obtain u1 u2 u3 where
      h: "libxlCapsInitHost e s0 = (Inr u1, snd h)" and
      n: "libxlCapsInitNuma e (snd h) = (Inr u2, snd n)" and
      g: "libxlCapsInitGuests e (snd n) = (Inr u3, snd g)"
      using assms(3-5)
      by (metis (no_types, lifting) isl_def prod.collapse sum.collapse(2))
    from h obtain phy where phy: "physinfo e = Some phy"
      and c1: "caps (snd h) = (caps s0)\<lparr>host_features := host_features (caps s0) @
                   (if bit (hw_cap phy 0) 6 then [''pae''] else []),
                 netprefix := Some (LIBXL_GENERATED_PREFIX_XEN e)\<rparr>"
      by (rule libxlCapsInitHost_result)
    from n obtain numa_info topo where ni: "numainfo e = Some numa_info"
      and tp: "cputopology e = Some topo"
      and c2: "caps (snd n) = (caps (snd h))\<lparr>numa_cells := numa_cells (caps (snd h)) @
        map (\<lambda>i. \<lparr>num = i, cell_mem = size' (numa_info ! i) div 1024,
                  cell_cpus = node_cpus topo i\<rparr>)
          (filter (\<lambda>i. size' (numa_info ! i) \<noteq> ucast LIBXL_NUMAINFO_INVALID_ENTRY)
             [0..<length numa_info])\<rparr>"
      by (rule libxlCapsInitNuma_result)
    from g obtain v str where v: "version_info e = Some v" "capabilities v = Some str"
      and c3: "caps (snd g) = (caps (snd n))\<lparr>guests := guests (caps (snd n)) @
                 map (guest_of e) (retained (parse_capabilities str))\<rparr>"
      by (rule libxlCapsInitGuests_result)
    have "caps (snd g) =
                 \<lparr>host_arch = virArchFromHost e,
                  offlineMigrate = \<not> LIBXL_HAVE_NO_SUSPEND_RESUME e,
                  liveMigrate = \<not> LIBXL_HAVE_NO_SUSPEND_RESUME e,
                  host_features = (if bit (hw_cap phy 0) 6 then [''pae''] else []),
                  netprefix = Some (LIBXL_GENERATED_PREFIX_XEN e),
                  numa_cells =
                    map (\<lambda>i. \<lparr>num = i, cell_mem = size' (numa_info ! i) div 1024,
                              cell_cpus = node_cpus topo i\<rparr>)
                      (filter (\<lambda>i. size' (numa_info ! i) \<noteq> ucast LIBXL_NUMAINFO_INVALID_ENTRY)
                         [0..<length numa_info]),
                  guests = map (guest_of e) (retained (parse_capabilities str))\<rparr>"
      unfolding c3 c2 c1 assms(2) by (simp add: virCapabilitiesNew_def)
    with phy ni tp v show ?thesis by blast
  qed
  from fail good pop show ?thesis by blast
qed

theorem assembler_all_or_nothing_witness:
  "returned (libxlMakeCapabilities example_env Unlimited) =
     Some (caps (snd (libxlCapsInitGuests example_env
       (snd (libxlCapsInitNuma example_env
         (snd (libxlCapsInitHost example_env example_st))))))) \<and>
   isl (fst (libxlCapsInitGuests (example_env\<lparr>version_info := None\<rparr>)
       (snd (libxlCapsInitNuma (example_env\<lparr>version_info := None\<rparr>)
         (snd (libxlCapsInitHost (example_env\<lparr>version_info := None\<rparr>) example_st)))))) \<and>
   returned (libxlMakeCapabilities (example_env\<lparr>version_info := None\<rparr>) Unlimited) = None \<and>
   live (libxlMakeCapabilities (example_env\<lparr>version_info := None\<rparr>) Unlimited) = None"
proof -
  let ?e' = "example_env\<lparr>version_info := None\<rparr>"
  let ?h = "libxlCapsInitHost example_env example_st"
  let ?n = "libxlCapsInitNuma example_env (snd ?h)"
  let ?g = "libxlCapsInitGuests example_env (snd ?n)"
  let ?h' = "libxlCapsInitHost ?e' example_st"
  let ?n' = "libxlCapsInitNuma ?e' (snd ?h')"
  let ?g' = "libxlCapsInitGuests ?e' (snd ?n')"
  have a: "virAlloc Unlimited = Some Unlimited" by simp
  have s0: "example_st = \<lparr>caps = virCapabilitiesNew (virArchFromHost example_env)
                  (\<not> LIBXL_HAVE_NO_SUSPEND_RESUME example_env)
                  (\<not> LIBXL_HAVE_NO_SUSPEND_RESUME example_env), heap_mem = Unlimited\<rparr>"
    by (simp add: example_st_def example_env_def)
  have s0': "example_st = \<lparr>caps = virCapabilitiesNew (virArchFromHost ?e')
                  (\<not> LIBXL_HAVE_NO_SUSPEND_RESUME ?e')
                  (\<not> LIBXL_HAVE_NO_SUSPEND_RESUME ?e'), heap_mem = Unlimited\<rparr>"
    by (simp add: example_st_def example_env_def)
  have good: "\<not> isl (fst ?h) \<and> \<not> isl (fst ?n) \<and> \<not> isl (fst ?g)" by code_simp
  have bad: "isl (fst ?g')" by code_simp
  from assembler_all_or_nothing [OF a s0 refl refl refl] good
    assembler_all_or_nothing [OF a s0' refl refl refl] bad
  show ?thesis by blast
qed

text \<open>
  Claim C7. The classifier returns the traditional device-model version exactly when
  the guest is HVM, an emulator path is set, the file exists, running it with
  \<^verbatim>\<open>-help\<close> succeeds and the captured output contains the marker string; in every
  other case (not HVM, no path, no file, failed run, no marker) it returns the
  default version. The result is always one of the two versions: no error reaches
  the caller.
\<close>

theorem emulator_type_classified:
  "libxlDomainGetEmulatorType h def =
     (if os_type def = VIR_DOMAIN_OSTYPE_HVM \<and>
         (\<exists>path out u v. def_emulator def = Some path \<and> virFileExists h path \<and>
            virCommandRun h path [''-help''] = Some out \<and>
            out = u @ LIBXL_QEMU_DM_STR @ v)
      then LIBXL_DEVICE_MODEL_VERSION_QEMU_XEN_TRADITIONAL
      else LIBXL_DEVICE_MODEL_VERSION_QEMU_XEN)"
  by (auto simp: libxlDomainGetEmulatorType_def strstr_iff split: option.splits)

theorem emulator_type_classified_witness:
  "libxlDomainGetEmulatorType
     \<lparr>virFileExists = (\<lambda>p. p = ''/usr/lib/xen/bin/qemu-dm''),
      virCommandRun = (\<lambda>p a. if a = [''-help'']
         then Some ''usage: Options specific to the Xen version: -domid'' else None)\<rparr>
     \<lparr>os_type = VIR_DOMAIN_OSTYPE_HVM, def_emulator = Some ''/usr/lib/xen/bin/qemu-dm''\<rparr>
   = LIBXL_DEVICE_MODEL_VERSION_QEMU_XEN_TRADITIONAL \<and>
   libxlDomainGetEmulatorType
     \<lparr>virFileExists = (\<lambda>p. False), virCommandRun = (\<lambda>p a. None)\<rparr>
     \<lparr>os_type = VIR_DOMAIN_OSTYPE_HVM, def_emulator = Some ''/usr/lib/xen/bin/qemu-dm''\<rparr>
   = LIBXL_DEVICE_MODEL_VERSION_QEMU_XEN"
proof -
  have "''usage: Options specific to the Xen version: -domid'' =
        ''usage: '' @ LIBXL_QEMU_DM_STR @ '' -domid''"
    by (simp add: LIBXL_QEMU_DM_STR_def)
  then have "\<exists>u v. ''usage: Options specific to the Xen version: -domid'' =
        u @ LIBXL_QEMU_DM_STR @ v"
    by blast
  then show ?thesis
    by (simp add: emulator_type_classified)
qed

section \<open>Properties of the cpuinfo populator\<close>

lemma fgets_from_lengths:
  "n + length cur = sizeof_line - 1 \<Longrightarrow> 1 \<le> n \<Longrightarrow>
   \<forall>c \<in> set (fgets_from n cur f). 0 < length c \<and> length c < sizeof_line"
proof (induction f arbitrary: n cur)
  case Nil
  then show ?case by (auto simp: sizeof_line_def)
next
  case (Cons a f)
  have fresh: "\<forall>c \<in> set (fgets_from (sizeof_line - 1) [] f). 0 < length c \<and> length c < sizeof_line"
    by (rule Cons.IH) (simp_all add: sizeof_line_def)
  show ?case
  proof (cases "a = CHR 0x0A \<or> n \<le> 1")
    case True
    with Cons.prems fresh show ?thesis by (auto simp: sizeof_line_def)
  next
    case False
    with Cons.prems have "(n - 1) + length (a # cur) = sizeof_line - 1" "1 \<le> n - 1" by auto
    from Cons.IH [OF this] False show ?thesis by simp
  qed
qed

lemma fgets_all_lengths:
  "\<forall>c \<in> set (fgets_all f). 0 < length c \<and> length c < sizeof_line"
  unfolding fgets_all_def by (rule fgets_from_lengths) (simp_all add: sizeof_line_def)

lemma length_fgets_store:
  "length chunk < length line \<Longrightarrow> length (fgets_store chunk line) = length line"
  by (simp add: fgets_store_def)
















text \<open>
  A line \<^verbatim>\<open>cpu MHz\<close> shorter than 9 characters makes the populator read what the
  array held behind the terminator. With no colon there it fails with the message
  of the \<^verbatim>\<open>"cpu MHz"\<close> branch; with a colon followed by something that is not a number
  it carries on.
\<close>

lemma cpuinfo_short_mhz_line:
  "linuxNodeInfoCPUPopulate strtol_example (replicate 1024 (CHR ''x''))
     (''cpu MHz'' @ [CHR 0x0A] @ ''processor : 0'' @ [CHR 0x0A]) nodeinfo_example =
   Inl ParsingMHz"
  "linuxNodeInfoCPUPopulate strtol_example
     (replicate 9 (CHR ''x'') @ '':'' @ replicate 1014 (CHR ''x''))
     (''cpu MHz'' @ [CHR 0x0A] @ ''processor : 0'' @ [CHR 0x0A]) nodeinfo_example =
   Inr \<lparr>cpus = 1, mhz = 0, nodes = 1, sockets = 1, cores = 1, threads = 1\<rparr>"
  by code_simp+






end
